theory Spec2Isabelle
  imports Main "HOL-Library.Word" "HOL-Library.Product_Lexorder"
begin

unbundle bit_operations_syntax

section \<open>Data model of omnisketch.c\<close>

text \<open>
  A shallow embedding of \<^verbatim>\<open>src/omnisketch.c\<close>. The unsigned 32-bit fields
  (\<^verbatim>\<open>totalCount\<close>, \<^verbatim>\<open>maxHash\<close>, \<^verbatim>\<open>seed\<close>, hashes) and the signed
  32-bit ones (\<^verbatim>\<open>count\<close>, the stored item IDs) are \<open>32 word\<close>: addition wraps, \<open>unat\<close>
  reads a word unsigned and \<open>sint\<close> reads it in two's complement. The 16-bit fields
  (\<^verbatim>\<open>sampleCount\<close>, \<^verbatim>\<open>maxIndex\<close> and the dimensions) are \<open>nat\<close>: the code only
  ever increments \<^verbatim>\<open>sampleCount\<close> below \<^verbatim>\<open>sampleSize\<close> (an \<^verbatim>\<open>int16\<close>), and the one
  subtraction that can wrap (\<^verbatim>\<open>sampleCount - 1\<close> in the merge) is written out.
\<close>

type_synonym uint32 = "32 word"

record bucket_t =
  totalCount :: uint32
  sampleCount :: nat
  maxIndex :: nat
  maxHash :: uint32
  isSorted :: bool

text \<open>
  The sketch: the header fields, the bucket array and the array of item IDs. The ID array
  of the source is one flat block of \<^verbatim>\<open>sampleSize\<close> slots per bucket, addressed by
  \<^verbatim>\<open>SKETCH_SAMPLE\<close> through the bucket index; here it is kept as the list of those blocks,
  so that \<open>samples s ! idx\<close> is the array \<^verbatim>\<open>SKETCH_SAMPLE\<close> points to. The varlena
  length word is a function of the dimensions and is left out.
\<close>

record omnisketch_t =
  flags :: uint32
  numSketches :: nat
  sketchWidth :: nat
  sketchHeight :: nat
  sampleSize :: nat
  itemSize :: int
  count :: uint32
  seed :: uint32
  buckets :: "bucket_t list"
  samples :: "uint32 list list"

record item_hash_t =
  item :: uint32
  hash :: uint32

record item_list_t =
  nitems :: nat
  items :: "uint32 list"

datatype error =
    NotAggregateContext
  | SketchesDoNotMatch
  | AttributeMismatch nat nat
  | NullDereference
  | DivisionByZero

definition SKETCH_SIZE :: "omnisketch_t \<Rightarrow> nat" where
  "SKETCH_SIZE s = sketchWidth s * sketchHeight s"

definition SKETCH_BUCKET_INDEX :: "omnisketch_t \<Rightarrow> nat \<Rightarrow> nat \<Rightarrow> nat \<Rightarrow> nat" where
  "SKETCH_BUCKET_INDEX s a i j = a * SKETCH_SIZE s + i * sketchWidth s + j"

subsection \<open>Hashing\<close>

text \<open>
  \<^verbatim>\<open>SKETCH_HASH(v, s)\<close> is \<^verbatim>\<open>XXH32(&v, sizeof(uint32), s)\<close>: the xxHash library's
  32-bit hash of the four bytes of \<open>v\<close> with seed \<open>s\<close>. For an input of four bytes
  XXH32 adds the length and one little-endian lane to the seeded accumulator, rotates,
  multiplies and runs the final avalanche. The general results below never unfold it.
\<close>

definition XXH_rotl32 :: "uint32 \<Rightarrow> nat \<Rightarrow> uint32" where
  "XXH_rotl32 x r = (push_bit r x) OR (drop_bit (32 - r) x)"

definition XXH32_avalanche :: "uint32 \<Rightarrow> uint32" where
  "XXH32_avalanche h0 =
     (let h1 = h0 XOR drop_bit 15 h0;
          h2 = h1 * 0x85EBCA77;
          h3 = h2 XOR drop_bit 13 h2;
          h4 = h3 * 0xC2B2AE3D
      in h4 XOR drop_bit 16 h4)"

definition XXH32 :: "uint32 \<Rightarrow> uint32 \<Rightarrow> uint32" where
  "XXH32 v s =
     (let h0 = s + 0x165667B1 + 4;
          h1 = h0 + v * 0xC2B2AE3D;
          h2 = XXH_rotl32 h1 17 * 0x27D4EB2F
      in XXH32_avalanche h2)"

definition SKETCH_SEED :: uint32 where
  "SKETCH_SEED = 0xFFFFFFFF"

definition SKETCH_HASH :: "uint32 \<Rightarrow> uint32 \<Rightarrow> uint32" where
  "SKETCH_HASH v s = XXH32 v s"

subsection \<open>The assertion checks\<close>

definition AssertCheckBucketBasic :: "omnisketch_t \<Rightarrow> bucket_t \<Rightarrow> bool" where
  "AssertCheckBucketBasic sketch bucket =
     (sampleCount bucket \<le> unat (totalCount bucket) \<and>
      totalCount bucket \<le> count sketch \<and>
      sampleCount bucket \<le> sampleSize sketch \<and>
      maxIndex bucket \<le> sampleCount bucket)"

text \<open>The body of the loop of \<^verbatim>\<open>AssertCheckBucket\<close> at position \<open>i\<close>.\<close>

definition check_item :: "bucket_t \<Rightarrow> uint32 list \<Rightarrow> nat \<Rightarrow> bool" where
  "check_item bucket sample i =
     (let h = SKETCH_HASH (sample ! i) SKETCH_SEED in
      h \<le> maxHash bucket \<and>
      (if 0 < i \<and> isSorted bucket then
         (let h_prev = SKETCH_HASH (sample ! (i - 1)) SKETCH_SEED in
          h_prev < h \<or> (h = h_prev \<and> sint (sample ! (i - 1)) < sint (sample ! i)))
       else if 0 < i then sample ! i \<noteq> sample ! (i - 1)
       else True))"

definition AssertCheckBucket :: "omnisketch_t \<Rightarrow> bucket_t \<Rightarrow> uint32 list \<Rightarrow> bool" where
  "AssertCheckBucket sketch bucket sample =
     (AssertCheckBucketBasic sketch bucket \<and>
      \<not> (sampleCount bucket = 0 \<and> 0 < totalCount bucket) \<and>
      (if sampleCount bucket = 0 then True
       else maxIndex bucket < sampleCount bucket \<and>
            maxHash bucket = SKETCH_HASH (sample ! maxIndex bucket) SKETCH_SEED \<and>
            (\<not> isSorted bucket \<or> maxIndex bucket = sampleCount bucket - 1) \<and>
            list_all (check_item bucket sample) [0..<sampleCount bucket]))"

text \<open>
  \<^verbatim>\<open>AssertCheckSketch\<close>: every row of every matrix sums, in 64-bit arithmetic, to the
  sketch's \<^verbatim>\<open>count\<close> (a signed 32-bit field).
\<close>

definition row_total :: "omnisketch_t \<Rightarrow> nat \<Rightarrow> nat \<Rightarrow> int" where
  "row_total sketch a i =
     (\<Sum>j \<leftarrow> [0..<sketchWidth sketch]. uint (totalCount (buckets sketch ! SKETCH_BUCKET_INDEX sketch a i j)))"

definition AssertCheckSketch :: "omnisketch_t \<Rightarrow> bool" where
  "AssertCheckSketch sketch =
     list_all (\<lambda>a. list_all (\<lambda>i.
         list_all (\<lambda>j. AssertCheckBucketBasic sketch (buckets sketch ! SKETCH_BUCKET_INDEX sketch a i j))
           [0..<sketchWidth sketch] \<and>
         sint (count sketch) = row_total sketch a i)
       [0..<sketchHeight sketch]) [0..<numSketches sketch]"

subsection \<open>Allocation\<close>

text \<open>
  \<^verbatim>\<open>omnisketch_allocate\<close> zeroes the whole block (\<^verbatim>\<open>palloc0\<close>), stores the dimensions
  and draws the seed from the global generator; the draw is the argument \<open>rnd\<close>.
\<close>

definition empty_bucket :: bucket_t where
  "empty_bucket = \<lparr>totalCount = 0, sampleCount = 0, maxIndex = 0, maxHash = 0, isSorted = False\<rparr>"

definition omnisketch_allocate :: "nat \<Rightarrow> nat \<Rightarrow> nat \<Rightarrow> nat \<Rightarrow> int \<Rightarrow> uint32 \<Rightarrow> omnisketch_t" where
  "omnisketch_allocate nsketches width height sampleSz itemSz rnd =
     \<lparr>flags = 0, numSketches = nsketches, sketchWidth = width, sketchHeight = height,
      sampleSize = sampleSz, itemSize = itemSz, count = 0, seed = rnd,
      buckets = replicate (nsketches * width * height) empty_bucket,
      samples = replicate (nsketches * width * height) (replicate sampleSz 0)\<rparr>"

subsection \<open>Adding an ID to a bucket's sample\<close>

text \<open>
  The scan of \<^verbatim>\<open>omnisketch_sample_add\<close> that recomputes the maximum after a
  replacement: it starts from \<^verbatim>\<open>maxHash = 0\<close> and moves to every position whose hash is
  at least the running maximum.
\<close>

definition rescan_step :: "uint32 list \<Rightarrow> nat \<Rightarrow> bucket_t \<Rightarrow> bucket_t" where
  "rescan_step sample k bucket =
     (let h = SKETCH_HASH (sample ! k) SKETCH_SEED in
      if maxHash bucket \<le> h then bucket\<lparr>maxHash := h, maxIndex := k\<rparr> else bucket)"

definition rescan_max :: "uint32 list \<Rightarrow> bucket_t \<Rightarrow> bucket_t" where
  "rescan_max sample bucket =
     fold (rescan_step sample) [0..<sampleCount bucket] (bucket\<lparr>maxHash := 0\<rparr>)"

definition omnisketch_sample_add ::
    "omnisketch_t \<Rightarrow> bucket_t \<Rightarrow> uint32 list \<Rightarrow> uint32 \<Rightarrow> bucket_t \<times> uint32 list" where
  "omnisketch_sample_add sketch bucket sample itm =
     (let h = SKETCH_HASH itm SKETCH_SEED in
      if sampleCount bucket < sampleSize sketch then
        (let bucket1 =
               (if sampleCount bucket = 0 then bucket\<lparr>maxIndex := 0, maxHash := h\<rparr>
                else if maxHash bucket < h then bucket\<lparr>maxIndex := sampleCount bucket, maxHash := h\<rparr>
                else bucket)
         in (bucket1\<lparr>sampleCount := sampleCount bucket + 1\<rparr>, sample[sampleCount bucket := itm]))
      else if h < maxHash bucket then
        (let sample1 = sample[maxIndex bucket := itm]
         in (rescan_max sample1 bucket, sample1))
      else (bucket, sample))"

subsection \<open>The builder\<close>

text \<open>
  The body of the loop of \<^verbatim>\<open>omnisketch_add_hash\<close> for row \<open>i\<close>: the row hash is
  XXH32 seeded with the row number, reduced modulo the width (an unsigned remainder).
\<close>

definition add_hash_row :: "nat \<Rightarrow> uint32 \<Rightarrow> uint32 \<Rightarrow> nat \<Rightarrow> omnisketch_t \<Rightarrow> omnisketch_t" where
  "add_hash_row column hsh itm i sketch =
     (let h = SKETCH_HASH hsh (of_nat i);
          j = unat h mod sketchWidth sketch;
          idx = SKETCH_BUCKET_INDEX sketch column i j;
          bucket = buckets sketch ! idx;
          bucket1 = bucket\<lparr>totalCount := totalCount bucket + 1\<rparr>;
          (bucket2, sample2) = omnisketch_sample_add sketch bucket1 (samples sketch ! idx) itm
      in sketch\<lparr>buckets := (buckets sketch)[idx := bucket2],
                samples := (samples sketch)[idx := sample2]\<rparr>)"

definition omnisketch_add_hash :: "omnisketch_t \<Rightarrow> nat \<Rightarrow> uint32 \<Rightarrow> uint32 \<Rightarrow> omnisketch_t" where
  "omnisketch_add_hash sketch column hsh itm =
     fold (add_hash_row column hsh itm) [0..<sketchHeight sketch] sketch"

text \<open>
  The record handed to \<^verbatim>\<open>omnisketch_add\<close> and \<^verbatim>\<open>omnisketch_estimate\<close>, as the
  loops over its attributes see it: an attribute is dropped (skipped), NULL (hashed to 0)
  or carries the 32-bit hash of its value, computed by the type's hash function.
\<close>

datatype attribute = Dropped | Null | Hashed uint32

fun element_hash :: "attribute \<Rightarrow> uint32" where
  "element_hash (Hashed h) = h"
| "element_hash Null = 0"
| "element_hash Dropped = 0"

text \<open>
  The loop of \<^verbatim>\<open>omnisketch_add\<close> that picks the sample size \<open>B\<close> and the item size
  \<open>b\<close>. The floating-point expression \<^verbatim>\<open>ceil(log(4 * pow(B, 2.5) / delta))\<close> is the
  argument \<open>bits\<close>.
\<close>

function pick_sizes :: "(nat \<Rightarrow> int) \<Rightarrow> nat \<Rightarrow> int \<Rightarrow> nat \<times> int" where
  "pick_sizes bits B b =
     (if b < 32 \<and> B < 1024 then pick_sizes bits (B + 1) (bits (B + 1)) else (B, b))"
  by pat_completeness auto
termination
  by (relation "measure (\<lambda>(bits, B, b). 1024 - B)") auto

declare pick_sizes.simps [simp del]

definition add_column :: "uint32 \<Rightarrow> attribute list \<Rightarrow> nat \<Rightarrow> omnisketch_t \<Rightarrow> omnisketch_t" where
  "add_column ident record i sketch =
     (case record ! i of
        Dropped \<Rightarrow> sketch
      | att \<Rightarrow> omnisketch_add_hash sketch i (element_hash att) ident)"

text \<open>
  \<^verbatim>\<open>omnisketch_add\<close>. The floating-point sizing of the first call enters through three
  arguments: \<open>d\<close> is \<^verbatim>\<open>ceil(log(2.0 / delta))\<close>, \<open>wc\<close> is the
  \<^verbatim>\<open>ceil(...)\<close> term of the width, to which the code adds 1, and \<open>bits\<close> is
  the expression of the sizing loop. \<open>rnd\<close> is the seed drawn at allocation. All four
  are only used when there is no sketch yet.
\<close>

definition omnisketch_add ::
    "omnisketch_t option \<Rightarrow> nat \<Rightarrow> nat \<Rightarrow> (nat \<Rightarrow> int) \<Rightarrow> uint32 \<Rightarrow> attribute list \<Rightarrow> error + omnisketch_t" where
  "omnisketch_add state wc d bits rnd record =
     (let ncolumns = length record;
          sketch = (case state of
                      None \<Rightarrow> (let (B, b) = pick_sizes bits 0 0
                               in omnisketch_allocate ncolumns (1 + wc) d B b rnd)
                    | Some s \<Rightarrow> s)
      in if numSketches sketch \<noteq> ncolumns
         then Inl (AttributeMismatch ncolumns (numSketches sketch))
         else (let sketch1 = sketch\<lparr>count := count sketch + 1\<rparr>;
                   ident = XXH32 (count sketch1) (seed sketch1)
               in Inr (fold (add_column ident record) [0..<ncolumns] sketch1)))"

subsection \<open>Sorting a sample\<close>

definition cmp_item_hash :: "item_hash_t \<Rightarrow> item_hash_t \<Rightarrow> int" where
  "cmp_item_hash ia ib =
     (if hash ia < hash ib then - 1
      else if hash ib < hash ia then 1
      else if sint (item ia) < sint (item ib) then - 1
      else if sint (item ib) < sint (item ia) then 1
      else 0)"

text \<open>
  \<^verbatim>\<open>pg_qsort\<close> is PostgreSQL's sort routine. It is modelled as insertion sort under the
  comparison function; \<^verbatim>\<open>cmp_item_hash\<close> only returns 0 on equal records, so
  every sorting algorithm produces the same array.
\<close>

fun insert_cmp :: "('a \<Rightarrow> 'a \<Rightarrow> int) \<Rightarrow> 'a \<Rightarrow> 'a list \<Rightarrow> 'a list" where
  "insert_cmp cmp x [] = [x]"
| "insert_cmp cmp x (y # ys) = (if cmp x y \<le> 0 then x # y # ys else y # insert_cmp cmp x ys)"

definition pg_qsort :: "('a \<Rightarrow> 'a \<Rightarrow> int) \<Rightarrow> 'a list \<Rightarrow> 'a list" where
  "pg_qsort cmp xs = foldr (insert_cmp cmp) xs []"

definition item_with_hash :: "uint32 \<Rightarrow> item_hash_t" where
  "item_with_hash x = \<lparr>item = x, hash = SKETCH_HASH x SKETCH_SEED\<rparr>"

definition omnisketch_sorted_items :: "bucket_t \<Rightarrow> uint32 list \<Rightarrow> item_hash_t list" where
  "omnisketch_sorted_items bucket itms =
     (let sorted = map (\<lambda>k. item_with_hash (itms ! k)) [0..<sampleCount bucket]
      in if \<not> isSorted bucket then pg_qsort cmp_item_hash sorted else sorted)"

subsection \<open>Finalize\<close>

text \<open>The body of the innermost loop of \<^verbatim>\<open>omnisketch_finalize\<close> on one bucket.\<close>

definition finalize_bucket :: "bucket_t \<times> uint32 list \<Rightarrow> bucket_t \<times> uint32 list" where
  "finalize_bucket c =
     (let bucket = fst c; sample = snd c in
      if isSorted bucket then c
      else if 2 \<le> sampleCount bucket then
        (let itms = omnisketch_sorted_items bucket sample;
             sample1 = fold (\<lambda>l smp. smp[l := item (itms ! l)]) [0..<sampleCount bucket] sample
         in (bucket\<lparr>maxIndex := sampleCount bucket - 1, isSorted := True\<rparr>, sample1))
      else c)"

definition finalize_at :: "nat \<Rightarrow> nat \<Rightarrow> nat \<Rightarrow> omnisketch_t \<Rightarrow> omnisketch_t" where
  "finalize_at i j k sketch =
     (let idx = SKETCH_BUCKET_INDEX sketch i j k;
          (bucket1, sample1) = finalize_bucket (buckets sketch ! idx, samples sketch ! idx)
      in sketch\<lparr>buckets := (buckets sketch)[idx := bucket1],
                samples := (samples sketch)[idx := sample1]\<rparr>)"

definition omnisketch_finalize :: "omnisketch_t \<Rightarrow> omnisketch_t" where
  "omnisketch_finalize sketch =
     fold (\<lambda>i. fold (\<lambda>j. fold (\<lambda>k. finalize_at i j k)
                              [0..<sketchWidth sketch])
                    [0..<sketchHeight sketch])
          [0..<numSketches sketch] sketch"

subsection \<open>Combine\<close>

definition omnisketch_equals :: "omnisketch_t \<Rightarrow> omnisketch_t \<Rightarrow> bool" where
  "omnisketch_equals a b =
     (numSketches a = numSketches b \<and>
      sketchHeight a = sketchHeight b \<and>
      sketchWidth a = sketchWidth b \<and>
      sampleSize a = sampleSize b \<and>
      itemSize a = itemSize b)"

definition omnisketch_copy :: "omnisketch_t \<Rightarrow> omnisketch_t" where
  "omnisketch_copy sketch = sketch"

text \<open>
  The two-pointer loop of \<^verbatim>\<open>omnisketch_merge_buckets\<close>. The state is the three
  indices, the destination sample and the destination's \<^verbatim>\<open>maxHash\<close>; \<open>dn\<close> and
  \<open>sn\<close> are the two sample counts, which the loop only reads.
\<close>

function merge_loop ::
    "nat \<Rightarrow> item_hash_t list \<Rightarrow> item_hash_t list \<Rightarrow> nat \<Rightarrow> nat \<Rightarrow>
     nat \<Rightarrow> nat \<Rightarrow> nat \<Rightarrow> uint32 list \<Rightarrow> uint32 \<Rightarrow> nat \<times> uint32 list \<times> uint32" where
  "merge_loop sampleSz dst_items src_items dn sn i j k dst_sample mh =
     (if k < sampleSz \<and> (i < dn \<or> j < sn) then
        (if i = dn then
           merge_loop sampleSz dst_items src_items dn sn i (j + 1) (k + 1)
             (dst_sample[k := item (src_items ! j)]) (hash (src_items ! j))
         else if j = sn then
           merge_loop sampleSz dst_items src_items dn sn (i + 1) j (k + 1)
             (dst_sample[k := item (dst_items ! i)]) (hash (dst_items ! i))
         else if 0 < cmp_item_hash (dst_items ! i) (src_items ! j) then
           merge_loop sampleSz dst_items src_items dn sn i (j + 1) (k + 1)
             (dst_sample[k := item (src_items ! j)]) (hash (src_items ! j))
         else
           merge_loop sampleSz dst_items src_items dn sn (i + 1) j (k + 1)
             (dst_sample[k := item (dst_items ! i)]) (hash (dst_items ! i)))
      else (k, dst_sample, mh))"
  by pat_completeness auto
termination
  by (relation "measure (\<lambda>(sampleSz, dst_items, src_items, dn, sn, i, j, k, dst_sample, mh). sampleSz - k)") auto

declare merge_loop.simps [simp del]

text \<open>
  \<^verbatim>\<open>omnisketch_merge_buckets\<close> on the destination's and the source's bucket and
  sample; the result is the destination's new bucket and sample. Both sorted copies are
  taken before the loop writes, and the fields the loop reads are written only after it.
  \<^verbatim>\<open>maxIndex\<close> is a \<^verbatim>\<open>uint16\<close>: \<^verbatim>\<open>sampleCount - 1\<close> wraps to 65535 at 0.
\<close>

definition omnisketch_merge_buckets ::
    "nat \<Rightarrow> bucket_t \<times> uint32 list \<Rightarrow> bucket_t \<times> uint32 list \<Rightarrow> bucket_t \<times> uint32 list" where
  "omnisketch_merge_buckets sampleSz dc sc =
     (let dst_bucket = fst dc; dst_sample = snd dc; src_bucket = fst sc; src_sample = snd sc in
      if sampleCount src_bucket = 0 then dc
      else
        (let dst_items = omnisketch_sorted_items dst_bucket dst_sample;
             src_items = omnisketch_sorted_items src_bucket src_sample;
             (k, sample1, mh) = merge_loop sampleSz dst_items src_items
                 (sampleCount dst_bucket) (sampleCount src_bucket) 0 0 0 dst_sample (maxHash dst_bucket)
         in (dst_bucket\<lparr>maxHash := mh,
                        totalCount := totalCount dst_bucket + totalCount src_bucket,
                        isSorted := True,
                        sampleCount := k,
                        maxIndex := (if k = 0 then 65535 else k - 1)\<rparr>, sample1)))"

definition merge_at :: "omnisketch_t \<Rightarrow> nat \<Rightarrow> nat \<Rightarrow> nat \<Rightarrow> omnisketch_t \<Rightarrow> omnisketch_t" where
  "merge_at src a i j dst =
     (let di = SKETCH_BUCKET_INDEX dst a i j;
          si = SKETCH_BUCKET_INDEX src a i j;
          (bucket1, sample1) = omnisketch_merge_buckets (sampleSize dst)
              (buckets dst ! di, samples dst ! di) (buckets src ! si, samples src ! si)
      in dst\<lparr>buckets := (buckets dst)[di := bucket1],
             samples := (samples dst)[di := sample1]\<rparr>)"

definition combine_loops :: "omnisketch_t \<Rightarrow> omnisketch_t \<Rightarrow> omnisketch_t" where
  "combine_loops src dst =
     fold (\<lambda>a. fold (\<lambda>i. fold (\<lambda>j. merge_at src a i j)
                              [0..<sketchWidth src])
                    [0..<sketchHeight src])
          [0..<numSketches src] dst"

text \<open>
  \<^verbatim>\<open>omnisketch_combine\<close> on the values of its two arguments (\<open>None\<close> is SQL NULL);
  \<open>agg\<close> is the result of \<^verbatim>\<open>AggCheckCallContext\<close>.
\<close>

definition omnisketch_combine ::
    "bool \<Rightarrow> omnisketch_t option \<Rightarrow> omnisketch_t option \<Rightarrow> error + omnisketch_t option" where
  "omnisketch_combine agg a b =
     (if \<not> agg then Inl NotAggregateContext
      else case a of
        None \<Rightarrow> (case b of None \<Rightarrow> Inr None | Some src \<Rightarrow> Inr (Some (omnisketch_copy src)))
      | Some dst \<Rightarrow>
          (case b of
             None \<Rightarrow> Inr (Some dst)
           | Some src \<Rightarrow>
               if \<not> omnisketch_equals src dst then Inl SketchesDoNotMatch
               else (let dst1 = combine_loops src dst
                     in Inr (Some (dst1\<lparr>count := count dst1 + count src\<rparr>)))))"

definition omnisketch_count :: "omnisketch_t \<Rightarrow> int" where
  "omnisketch_count sketch = sint (count sketch)"

subsection \<open>Estimate\<close>

text \<open>
  The loop of \<^verbatim>\<open>intersect_items\<close>: \<open>itms\<close> is the array of the running list with
  \<open>ni\<close> entries, \<open>tmp\<close> the bucket's sample with \<open>n\<close> entries. Matches are moved
  to the front of \<open>itms\<close>; the result is the number of matches and the array.
\<close>

function intersect_loop ::
    "uint32 list \<Rightarrow> nat \<Rightarrow> nat \<Rightarrow> uint32 list \<Rightarrow> nat \<Rightarrow> nat \<Rightarrow> nat \<Rightarrow> nat \<times> uint32 list" where
  "intersect_loop tmp n ni itms i j k =
     (if i < ni \<and> j < n then
        (if itms ! i = tmp ! j then
           intersect_loop tmp n ni (itms[k := itms ! i]) (i + 1) (j + 1) (k + 1)
         else if SKETCH_HASH (itms ! i) SKETCH_SEED < SKETCH_HASH (tmp ! j) SKETCH_SEED then
           intersect_loop tmp n ni itms (i + 1) j k
         else
           intersect_loop tmp n ni itms i (j + 1) k)
      else (k, itms))"
  by pat_completeness auto
termination
  by (relation "measure (\<lambda>(tmp, n, ni, itms, i, j, k). (ni - i) + (n - j))") auto

declare intersect_loop.simps [simp del]

definition intersect_items :: "item_list_t \<Rightarrow> nat \<Rightarrow> uint32 list \<Rightarrow> item_list_t" where
  "intersect_items il n tmp =
     (let (k, itms) = intersect_loop tmp n (nitems il) (items il) 0 0 0
      in \<lparr>nitems = k, items = itms\<rparr>)"

text \<open>
  The body of the loop of \<^verbatim>\<open>omnisketch_column_estimate\<close> for row \<open>i\<close>; the state is
  \<^verbatim>\<open>*maxcnt\<close> (an \<^verbatim>\<open>int64\<close>) and the running list (\<open>None\<close> is the NULL pointer).
\<close>

definition estimate_row ::
    "omnisketch_t \<Rightarrow> nat \<Rightarrow> uint32 \<Rightarrow> nat \<Rightarrow> int \<times> item_list_t option \<Rightarrow> int \<times> item_list_t option" where
  "estimate_row sketch column hsh i st =
     (let maxcnt = fst st; itms = snd st;
          h = SKETCH_HASH hsh (of_nat i);
          j = unat h mod sketchWidth sketch;
          idx = SKETCH_BUCKET_INDEX sketch column i j;
          bucket = buckets sketch ! idx;
          sample = samples sketch ! idx;
          maxcnt1 = (if maxcnt < uint (totalCount bucket) then uint (totalCount bucket) else maxcnt)
      in case itms of
           None \<Rightarrow> (maxcnt1, Some \<lparr>nitems = sampleCount bucket, items = take (sampleCount bucket) sample\<rparr>)
         | Some il \<Rightarrow> (maxcnt1, Some (intersect_items il (sampleCount bucket) sample)))"

definition omnisketch_column_estimate ::
    "omnisketch_t \<Rightarrow> nat \<Rightarrow> uint32 \<Rightarrow> int \<times> item_list_t option \<Rightarrow> int \<times> item_list_t option" where
  "omnisketch_column_estimate sketch column hsh st =
     fold (estimate_row sketch column hsh) [0..<sketchHeight sketch] st"

definition estimate_column ::
    "omnisketch_t \<Rightarrow> attribute list \<Rightarrow> nat \<Rightarrow> int \<times> item_list_t option \<Rightarrow> int \<times> item_list_t option" where
  "estimate_column sketch record i st =
     (case record ! i of
        Dropped \<Rightarrow> st
      | att \<Rightarrow> omnisketch_column_estimate sketch i (element_hash att) st)"

text \<open>
  \<^verbatim>\<open>omnisketch_estimate\<close>. The last statement divides the 64-bit \<^verbatim>\<open>maxcnt\<close> by the
  sample size (an integer division), multiplies by the number of items left, and stores
  the product in a \<^verbatim>\<open>double\<close>, which represents it exactly (it is below \<open>2 ^ 48\<close>).
  A NULL list (no attribute was visited) and a zero sample size make the statement trap.
\<close>

definition omnisketch_estimate :: "omnisketch_t option \<Rightarrow> attribute list \<Rightarrow> error + int option" where
  "omnisketch_estimate state record =
     (case state of
        None \<Rightarrow> Inr None
      | Some sketch \<Rightarrow>
          (let ncolumns = length record in
           if numSketches sketch \<noteq> ncolumns
           then Inl (AttributeMismatch ncolumns (numSketches sketch))
           else (case fold (estimate_column sketch record) [0..<ncolumns] (0, None) of
                   (maxcnt, None) \<Rightarrow> Inl NullDereference
                 | (maxcnt, Some il) \<Rightarrow>
                     if sampleSize sketch = 0 then Inl DivisionByZero
                     else Inr (Some (maxcnt div int (sampleSize sketch) * int (nitems il))))))"

subsection \<open>Sketches the code can produce\<close>

text \<open>
  A sketch is created by the first call of \<^verbatim>\<open>omnisketch_add\<close> and changed by further
  adds, by being the first argument of a combine, and by finalize.
\<close>

inductive reachable :: "omnisketch_t \<Rightarrow> bool" where
  reach_first: "omnisketch_add None wc d bits rnd record = Inr s \<Longrightarrow> reachable s"
| reach_add: "reachable s \<Longrightarrow> omnisketch_add (Some s) wc d bits rnd record = Inr s' \<Longrightarrow> reachable s'"
| reach_combine: "reachable a \<Longrightarrow> reachable b \<Longrightarrow>
     omnisketch_combine True (Some a) (Some b) = Inr (Some c) \<Longrightarrow> reachable c"
| reach_finalize: "reachable s \<Longrightarrow> reachable (omnisketch_finalize s)"

inductive step :: "omnisketch_t \<Rightarrow> omnisketch_t \<Rightarrow> bool" where
  step_add: "omnisketch_add (Some s) wc d bits rnd record = Inr s' \<Longrightarrow> step s s'"
| step_combine: "reachable b \<Longrightarrow> omnisketch_combine True (Some s) (Some b) = Inr (Some s') \<Longrightarrow> step s s'"
| step_finalize: "step s (omnisketch_finalize s)"

text \<open>The invariant asserted in \<^verbatim>\<open>AssertCheckBucket\<close>: a counted bucket has a sample.\<close>

definition nonempty_inv :: "omnisketch_t \<Rightarrow> bool" where
  "nonempty_inv s = (\<forall>b \<in> set (buckets s). 0 < totalCount b \<longrightarrow> 0 < sampleCount b)"

definition keeps_samples :: "omnisketch_t \<Rightarrow> omnisketch_t \<Rightarrow> bool" where
  "keeps_samples s s' =
     (length (buckets s') = length (buckets s) \<and>
      (\<forall>idx < length (buckets s).
         0 < sampleCount (buckets s ! idx) \<longrightarrow> 0 < sampleCount (buckets s' ! idx)))"

text \<open>
  Every step of every loop replaces one bucket. The replacement is \<open>fine\<close> for the
  bucket it replaces when it is counted only with a sample, and has a sample if the old
  bucket had one.
\<close>

definition fine :: "bucket_t \<Rightarrow> bucket_t \<Rightarrow> bool" where
  "fine old new = ((0 < totalCount new \<longrightarrow> 0 < sampleCount new) \<and>
                   (0 < sampleCount old \<longrightarrow> 0 < sampleCount new))"

definition step_inv :: "omnisketch_t \<Rightarrow> omnisketch_t \<Rightarrow> bool" where
  "step_inv s0 t = (1 \<le> sampleSize t \<and> nonempty_inv t \<and> keeps_samples s0 t)"

subsection \<open>Example sketches\<close>

text \<open>
  Concrete sketches for the closed statements below. They have one column (two for
  \<open>ex_D\<close>), width 2,
  height 1 and sample size 3 (\<open>bits3\<close> makes the sizing loop stop at 3); each one
  is the result of running the operations above, as the evaluation lemmas show.
\<close>

definition bits3 :: "nat \<Rightarrow> int" where
  "bits3 B = (if B < 3 then 5 else 40)"

definition ex_A1 :: omnisketch_t where
  "ex_A1 =
     \<lparr>flags = 0, numSketches = 1, sketchWidth = 2, sketchHeight = 1, sampleSize = 3,
     itemSize = 40, count = 1, seed = 6,
     buckets =
         [\<lparr>totalCount = 0, sampleCount = 0, maxIndex = 0, maxHash = 0, isSorted = False\<rparr>,
          \<lparr>totalCount = 1, sampleCount = 1, maxIndex = 0, maxHash = 3493897784, isSorted = False\<rparr>],
     samples = [[0, 0, 0], [120571769, 0, 0]]\<rparr>"

definition ex_A2 :: omnisketch_t where
  "ex_A2 =
     \<lparr>flags = 0, numSketches = 1, sketchWidth = 2, sketchHeight = 1, sampleSize = 3,
     itemSize = 40, count = 2, seed = 6,
     buckets =
         [\<lparr>totalCount = 0, sampleCount = 0, maxIndex = 0, maxHash = 0, isSorted = False\<rparr>,
          \<lparr>totalCount = 2, sampleCount = 2, maxIndex = 0, maxHash = 3493897784, isSorted = False\<rparr>],
     samples = [[0, 0, 0], [120571769, 537280818, 0]]\<rparr>"

definition ex_A2f :: omnisketch_t where
  "ex_A2f =
     \<lparr>flags = 0, numSketches = 1, sketchWidth = 2, sketchHeight = 1, sampleSize = 3,
     itemSize = 40, count = 2, seed = 6,
     buckets =
         [\<lparr>totalCount = 0, sampleCount = 0, maxIndex = 0, maxHash = 0, isSorted = False\<rparr>,
          \<lparr>totalCount = 2, sampleCount = 2, maxIndex = 1, maxHash = 3493897784, isSorted = True\<rparr>],
     samples = [[0, 0, 0], [537280818, 120571769, 0]]\<rparr>"

definition ex_A3 :: omnisketch_t where
  "ex_A3 =
     \<lparr>flags = 0, numSketches = 1, sketchWidth = 2, sketchHeight = 1, sampleSize = 3,
     itemSize = 40, count = 3, seed = 6,
     buckets =
         [\<lparr>totalCount = 0, sampleCount = 0, maxIndex = 0, maxHash = 0, isSorted = False\<rparr>,
          \<lparr>totalCount = 3, sampleCount = 3, maxIndex = 1, maxHash = 3493897784, isSorted = True\<rparr>],
     samples = [[0, 0, 0], [537280818, 120571769, 672669677]]\<rparr>"

definition ex_B1 :: omnisketch_t where
  "ex_B1 =
     \<lparr>flags = 0, numSketches = 1, sketchWidth = 2, sketchHeight = 1, sampleSize = 3,
     itemSize = 40, count = 1, seed = 9,
     buckets =
         [\<lparr>totalCount = 0, sampleCount = 0, maxIndex = 0, maxHash = 0, isSorted = False\<rparr>,
          \<lparr>totalCount = 1, sampleCount = 1, maxIndex = 0, maxHash = 3379143444, isSorted = False\<rparr>],
     samples = [[0, 0, 0], [380222602, 0, 0]]\<rparr>"

definition ex_AB :: omnisketch_t where
  "ex_AB =
     \<lparr>flags = 0, numSketches = 1, sketchWidth = 2, sketchHeight = 1, sampleSize = 3,
     itemSize = 40, count = 2, seed = 6,
     buckets =
         [\<lparr>totalCount = 0, sampleCount = 0, maxIndex = 0, maxHash = 0, isSorted = False\<rparr>,
          \<lparr>totalCount = 2, sampleCount = 2, maxIndex = 1, maxHash = 3493897784, isSorted = True\<rparr>],
     samples = [[0, 0, 0], [380222602, 120571769, 0]]\<rparr>"

definition ex_AB3 :: omnisketch_t where
  "ex_AB3 =
     \<lparr>flags = 0, numSketches = 1, sketchWidth = 2, sketchHeight = 1, sampleSize = 3,
     itemSize = 40, count = 3, seed = 6,
     buckets =
         [\<lparr>totalCount = 0, sampleCount = 0, maxIndex = 0, maxHash = 0, isSorted = False\<rparr>,
          \<lparr>totalCount = 3, sampleCount = 3, maxIndex = 1, maxHash = 3493897784, isSorted = True\<rparr>],
     samples = [[0, 0, 0], [380222602, 120571769, 672669677]]\<rparr>"

definition ex_P :: omnisketch_t where
  "ex_P =
     \<lparr>flags = 0, numSketches = 1, sketchWidth = 2, sketchHeight = 1, sampleSize = 3,
     itemSize = 40, count = 1, seed = 9,
     buckets =
         [\<lparr>totalCount = 1, sampleCount = 1, maxIndex = 0, maxHash = 3379143444, isSorted = False\<rparr>,
          \<lparr>totalCount = 0, sampleCount = 0, maxIndex = 0, maxHash = 0, isSorted = False\<rparr>],
     samples = [[380222602, 0, 0], [0, 0, 0]]\<rparr>"

definition ex_Q :: omnisketch_t where
  "ex_Q =
     \<lparr>flags = 0, numSketches = 1, sketchWidth = 2, sketchHeight = 1, sampleSize = 3,
     itemSize = 40, count = 1, seed = 11,
     buckets =
         [\<lparr>totalCount = 1, sampleCount = 1, maxIndex = 0, maxHash = 3062615343, isSorted = False\<rparr>,
          \<lparr>totalCount = 0, sampleCount = 0, maxIndex = 0, maxHash = 0, isSorted = False\<rparr>],
     samples = [[1196587888, 0, 0], [0, 0, 0]]\<rparr>"

definition ex_AP :: omnisketch_t where
  "ex_AP =
     \<lparr>flags = 0, numSketches = 1, sketchWidth = 2, sketchHeight = 1, sampleSize = 3,
     itemSize = 40, count = 2, seed = 6,
     buckets =
         [\<lparr>totalCount = 1, sampleCount = 1, maxIndex = 0, maxHash = 3379143444, isSorted = True\<rparr>,
          \<lparr>totalCount = 1, sampleCount = 1, maxIndex = 0, maxHash = 3493897784, isSorted = False\<rparr>],
     samples = [[380222602, 0, 0], [120571769, 0, 0]]\<rparr>"

definition ex_AP_Q :: omnisketch_t where
  "ex_AP_Q =
     \<lparr>flags = 0, numSketches = 1, sketchWidth = 2, sketchHeight = 1, sampleSize = 3,
     itemSize = 40, count = 3, seed = 6,
     buckets =
         [\<lparr>totalCount = 2, sampleCount = 2, maxIndex = 1, maxHash = 3379143444, isSorted = True\<rparr>,
          \<lparr>totalCount = 1, sampleCount = 1, maxIndex = 0, maxHash = 3493897784, isSorted = False\<rparr>],
     samples = [[1196587888, 380222602, 0], [120571769, 0, 0]]\<rparr>"

definition ex_PQ :: omnisketch_t where
  "ex_PQ =
     \<lparr>flags = 0, numSketches = 1, sketchWidth = 2, sketchHeight = 1, sampleSize = 3,
     itemSize = 40, count = 2, seed = 9,
     buckets =
         [\<lparr>totalCount = 2, sampleCount = 2, maxIndex = 1, maxHash = 3379143444, isSorted = True\<rparr>,
          \<lparr>totalCount = 0, sampleCount = 0, maxIndex = 0, maxHash = 0, isSorted = False\<rparr>],
     samples = [[1196587888, 380222602, 0], [0, 0, 0]]\<rparr>"

definition ex_A_PQ :: omnisketch_t where
  "ex_A_PQ =
     \<lparr>flags = 0, numSketches = 1, sketchWidth = 2, sketchHeight = 1, sampleSize = 3,
     itemSize = 40, count = 3, seed = 6,
     buckets =
         [\<lparr>totalCount = 2, sampleCount = 2, maxIndex = 1, maxHash = 3379143444, isSorted = True\<rparr>,
          \<lparr>totalCount = 1, sampleCount = 1, maxIndex = 0, maxHash = 3493897784, isSorted = False\<rparr>],
     samples = [[1196587888, 380222602, 0], [120571769, 0, 0]]\<rparr>"

definition ex_QA :: omnisketch_t where
  "ex_QA =
     \<lparr>flags = 0, numSketches = 1, sketchWidth = 2, sketchHeight = 1, sampleSize = 3,
     itemSize = 40, count = 2, seed = 11,
     buckets =
         [\<lparr>totalCount = 1, sampleCount = 1, maxIndex = 0, maxHash = 3062615343, isSorted = False\<rparr>,
          \<lparr>totalCount = 1, sampleCount = 1, maxIndex = 0, maxHash = 3493897784, isSorted = True\<rparr>],
     samples = [[1196587888, 0, 0], [120571769, 0, 0]]\<rparr>"

definition ex_QA_P :: omnisketch_t where
  "ex_QA_P =
     \<lparr>flags = 0, numSketches = 1, sketchWidth = 2, sketchHeight = 1, sampleSize = 3,
     itemSize = 40, count = 3, seed = 11,
     buckets =
         [\<lparr>totalCount = 2, sampleCount = 2, maxIndex = 1, maxHash = 3379143444, isSorted = True\<rparr>,
          \<lparr>totalCount = 1, sampleCount = 1, maxIndex = 0, maxHash = 3493897784, isSorted = True\<rparr>],
     samples = [[1196587888, 380222602, 0], [120571769, 0, 0]]\<rparr>"

definition ex_AP_Q_f :: omnisketch_t where
  "ex_AP_Q_f =
     \<lparr>flags = 0, numSketches = 1, sketchWidth = 2, sketchHeight = 1, sampleSize = 3,
     itemSize = 40, count = 3, seed = 6,
     buckets =
         [\<lparr>totalCount = 2, sampleCount = 2, maxIndex = 1, maxHash = 3379143444, isSorted = True\<rparr>,
          \<lparr>totalCount = 1, sampleCount = 1, maxIndex = 0, maxHash = 3493897784, isSorted = False\<rparr>],
     samples = [[1196587888, 380222602, 0], [120571769, 0, 0]]\<rparr>"

definition ex_A_PQ_f :: omnisketch_t where
  "ex_A_PQ_f =
     \<lparr>flags = 0, numSketches = 1, sketchWidth = 2, sketchHeight = 1, sampleSize = 3,
     itemSize = 40, count = 3, seed = 6,
     buckets =
         [\<lparr>totalCount = 2, sampleCount = 2, maxIndex = 1, maxHash = 3379143444, isSorted = True\<rparr>,
          \<lparr>totalCount = 1, sampleCount = 1, maxIndex = 0, maxHash = 3493897784, isSorted = False\<rparr>],
     samples = [[1196587888, 380222602, 0], [120571769, 0, 0]]\<rparr>"

definition ex_QA_P_f :: omnisketch_t where
  "ex_QA_P_f =
     \<lparr>flags = 0, numSketches = 1, sketchWidth = 2, sketchHeight = 1, sampleSize = 3,
     itemSize = 40, count = 3, seed = 11,
     buckets =
         [\<lparr>totalCount = 2, sampleCount = 2, maxIndex = 1, maxHash = 3379143444, isSorted = True\<rparr>,
          \<lparr>totalCount = 1, sampleCount = 1, maxIndex = 0, maxHash = 3493897784, isSorted = True\<rparr>],
     samples = [[1196587888, 380222602, 0], [120571769, 0, 0]]\<rparr>"

definition ex_D :: omnisketch_t where
  "ex_D =
     \<lparr>flags = 0, numSketches = 2, sketchWidth = 2, sketchHeight = 1, sampleSize = 3,
     itemSize = 40, count = 1, seed = 6,
     buckets =
         [\<lparr>totalCount = 0, sampleCount = 0, maxIndex = 0, maxHash = 0, isSorted = False\<rparr>,
          \<lparr>totalCount = 0, sampleCount = 0, maxIndex = 0, maxHash = 0, isSorted = False\<rparr>,
          \<lparr>totalCount = 0, sampleCount = 0, maxIndex = 0, maxHash = 0, isSorted = False\<rparr>,
          \<lparr>totalCount = 1, sampleCount = 1, maxIndex = 0, maxHash = 3493897784, isSorted = False\<rparr>],
     samples = [[0, 0, 0], [0, 0, 0], [0, 0, 0], [120571769, 0, 0]]\<rparr>"

text \<open>
  A bucket together with its sample array is a cell; every loop body of finalize and
  combine reads one cell and writes it back.
\<close>

definition cell :: "omnisketch_t \<Rightarrow> nat \<Rightarrow> bucket_t \<times> uint32 list" where
  "cell s idx = (buckets s ! idx, samples s ! idx)"

definition set_cell :: "nat \<Rightarrow> bucket_t \<times> uint32 list \<Rightarrow> omnisketch_t \<Rightarrow> omnisketch_t" where
  "set_cell idx c s = s\<lparr>buckets := (buckets s)[idx := fst c], samples := (samples s)[idx := snd c]\<rparr>"

definition cell_loop ::
    "(nat \<Rightarrow> bucket_t \<times> uint32 list \<Rightarrow> bucket_t \<times> uint32 list) \<Rightarrow> nat list \<Rightarrow> omnisketch_t \<Rightarrow> omnisketch_t" where
  "cell_loop g idxs s = fold (\<lambda>idx t. set_cell idx (g idx (cell t idx)) t) idxs s"

definition same_header :: "omnisketch_t \<Rightarrow> omnisketch_t \<Rightarrow> bool" where
  "same_header s t =
     (flags t = flags s \<and> numSketches t = numSketches s \<and> sketchWidth t = sketchWidth s \<and>
      sketchHeight t = sketchHeight s \<and> sampleSize t = sampleSize s \<and> itemSize t = itemSize s \<and>
      count t = count s \<and> seed t = seed s)"

text \<open>The number of buckets, and the sketches whose two arrays have that length.\<close>

definition num_buckets :: "omnisketch_t \<Rightarrow> nat" where
  "num_buckets s = numSketches s * SKETCH_SIZE s"

definition shaped :: "omnisketch_t \<Rightarrow> bool" where
  "shaped s = (length (buckets s) = num_buckets s \<and> length (samples s) = num_buckets s)"

subsection \<open>The order of stored IDs\<close>

text \<open>
  The order \<^verbatim>\<open>AssertCheckBucket\<close> checks on a sorted sample, and \<^verbatim>\<open>cmp_item_hash\<close>
  sorts by: first the unsigned hash \<open>H\<^sub>s\<close>, then the signed ID.
\<close>

definition item_less :: "uint32 \<Rightarrow> uint32 \<Rightarrow> bool" where
  "item_less x y =
     (SKETCH_HASH x SKETCH_SEED < SKETCH_HASH y SKETCH_SEED \<or>
      (SKETCH_HASH x SKETCH_SEED = SKETCH_HASH y SKETCH_SEED \<and> sint x < sint y))"

definition ikey :: "uint32 \<Rightarrow> uint32 \<times> int" where
  "ikey x = (SKETCH_HASH x SKETCH_SEED, sint x)"

text \<open>The IDs a cell stores: the first \<^verbatim>\<open>sampleCount\<close> slots of its array.\<close>

definition stored :: "bucket_t \<times> uint32 list \<Rightarrow> uint32 list" where
  "stored c = take (sampleCount (fst c)) (snd c)"

definition sorted_form :: "bucket_t \<times> uint32 list \<Rightarrow> bool" where
  "sorted_form c =
     (sorted_wrt item_less (stored c) \<and> maxIndex (fst c) = sampleCount (fst c) - 1)"

subsection \<open>The merge of two sorted ID lists\<close>

text \<open>
  The list the two-pointer loop of \<^verbatim>\<open>omnisketch_merge_buckets\<close> emits when it is not
  cut off by the sample size, as a function on the two sorted ID lists: it takes the
  source's head when \<^verbatim>\<open>cmp_item_hash\<close> is positive and the destination's otherwise.
\<close>

fun merge_ids :: "uint32 list \<Rightarrow> uint32 list \<Rightarrow> uint32 list" where
  "merge_ids [] ys = ys"
| "merge_ids xs [] = xs"
| "merge_ids (x # xs) (y # ys) =
     (if ikey y < ikey x then y # merge_ids (x # xs) ys else x # merge_ids xs (y # ys))"

text \<open>The stored IDs of a cell in sorted order.\<close>

definition sorted_ids :: "bucket_t \<times> uint32 list \<Rightarrow> uint32 list" where
  "sorted_ids c = sort_key ikey (stored c)"

subsection \<open>The bucket invariants\<close>

text \<open>
  The state of a cell that \<^verbatim>\<open>AssertCheckBucket\<close> accepts, for sample size \<open>B\<close>: at
  most \<open>B\<close> IDs are stored, the cached maximum is the hash of the ID at
  \<^verbatim>\<open>maxIndex\<close> and bounds every stored hash, and a cell marked sorted is in sorted form.
  In addition no ID is stored twice (the assertion only compares neighbours), the array
  has \<open>B\<close> slots, and what allocation zeroed and no operation has written is still
  zero: the slots behind the stored IDs, and the fields of a bucket without IDs.
\<close>

definition cell_ok :: "nat \<Rightarrow> bucket_t \<times> uint32 list \<Rightarrow> bool" where
  "cell_ok B c =
     (sampleCount (fst c) \<le> B \<and> length (snd c) = B \<and>
      drop (sampleCount (fst c)) (snd c) = replicate (B - sampleCount (fst c)) 0 \<and>
      distinct (stored c) \<and>
      (isSorted (fst c) \<longrightarrow> sorted_form c) \<and>
      (0 < sampleCount (fst c) \<longrightarrow>
         maxIndex (fst c) < sampleCount (fst c) \<and>
         maxHash (fst c) = SKETCH_HASH (snd c ! maxIndex (fst c)) SKETCH_SEED \<and>
         (\<forall>x \<in> set (stored c). SKETCH_HASH x SKETCH_SEED \<le> maxHash (fst c))) \<and>
      (sampleCount (fst c) = 0 \<longrightarrow>
         totalCount (fst c) = 0 \<and> maxIndex (fst c) = 0 \<and> maxHash (fst c) = 0))"

subsection \<open>Sketches that satisfy the invariants\<close>

text \<open>
  A sketch as allocation and the operations leave it: no flag set, one array entry per
  bucket, every cell in the state described by \<open>cell_ok\<close>.
\<close>

definition sketch_ok :: "omnisketch_t \<Rightarrow> bool" where
  "sketch_ok s =
     (flags s = 0 \<and> shaped s \<and>
      list_all (\<lambda>idx. cell_ok (sampleSize s) (cell s idx)) [0..<num_buckets s])"

text \<open>The IDs a sketch stores, over all its cells.\<close>

definition sketch_ids :: "omnisketch_t \<Rightarrow> uint32 set" where
  "sketch_ids s = set (concat (map (\<lambda>idx. stored (cell s idx)) [0..<num_buckets s]))"

text \<open>
  Two sketches that differ at most in their seed and in the \<^verbatim>\<open>isSorted\<close> flag of
  buckets holding fewer than two IDs.
\<close>

definition agree_but_seed :: "omnisketch_t \<Rightarrow> omnisketch_t \<Rightarrow> bool" where
  "agree_but_seed x y =
     (flags x = flags y \<and> numSketches x = numSketches y \<and> sketchWidth x = sketchWidth y \<and>
      sketchHeight x = sketchHeight y \<and> sampleSize x = sampleSize y \<and> itemSize x = itemSize y \<and>
      count x = count y \<and> samples x = samples y \<and>
      map totalCount (buckets x) = map totalCount (buckets y) \<and>
      map sampleCount (buckets x) = map sampleCount (buckets y) \<and>
      map maxIndex (buckets x) = map maxIndex (buckets y) \<and>
      map maxHash (buckets x) = map maxHash (buckets y) \<and>
      map (\<lambda>b. 2 \<le> sampleCount b \<and> isSorted b) (buckets x)
        = map (\<lambda>b. 2 \<le> sampleCount b \<and> isSorted b) (buckets y))"

subsection \<open>Combine on the bytes of the two sketches\<close>

text \<open>
  \<^verbatim>\<open>omnisketch_combine\<close> receives two pointers and writes through pointers it computes
  from them. To state which bytes it writes, the function is embedded a second time, on
  a byte-addressed memory: every \<^verbatim>\<open>p->field\<close> and \<^verbatim>\<open>p[k]\<close> of the source is a load
  or a store at the address the C expression denotes. Addresses are integers, multi-byte
  values are little-endian.

  The layout is that of the two structs: the header takes 28 bytes
  (\<^verbatim>\<open>numSketches\<close> at offset 8, \<^verbatim>\<open>sketchWidth\<close> at 10, \<^verbatim>\<open>sketchHeight\<close> at 12,
  \<^verbatim>\<open>sampleSize\<close> at 14, \<^verbatim>\<open>itemSize\<close> at 16, \<^verbatim>\<open>count\<close> at 20, \<^verbatim>\<open>seed\<close> at 24) and is
  padded to 32 by \<^verbatim>\<open>MAXALIGN\<close>; a bucket takes 16 bytes (\<^verbatim>\<open>totalCount\<close> at offset 0,
  \<^verbatim>\<open>sampleCount\<close> at 4, \<^verbatim>\<open>maxIndex\<close> at 6, \<^verbatim>\<open>maxHash\<close> at 8, \<^verbatim>\<open>isSorted\<close> at 12);
  an item ID takes 4.
\<close>

type_synonym memory = "int \<Rightarrow> 8 word"

definition load16 :: "memory \<Rightarrow> int \<Rightarrow> 16 word" where
  "load16 m p = word_cat (m (p + 1)) (m p)"

definition load32 :: "memory \<Rightarrow> int \<Rightarrow> uint32" where
  "load32 m p = word_cat (load16 m (p + 2)) (load16 m p)"

definition store16 :: "int \<Rightarrow> 16 word \<Rightarrow> memory \<Rightarrow> memory" where
  "store16 p v m = m(p := ucast v, p + 1 := ucast (drop_bit 8 v))"

definition store32 :: "int \<Rightarrow> uint32 \<Rightarrow> memory \<Rightarrow> memory" where
  "store32 p v m = store16 (p + 2) (ucast (drop_bit 16 v)) (store16 p (ucast v) m)"

text \<open>The \<^verbatim>\<open>int16\<close> fields of the header of the sketch at \<open>s\<close>, read as C reads them.\<close>

definition numSketches_at :: "memory \<Rightarrow> int \<Rightarrow> int" where
  "numSketches_at m s = sint (load16 m (s + 8))"

definition sketchWidth_at :: "memory \<Rightarrow> int \<Rightarrow> int" where
  "sketchWidth_at m s = sint (load16 m (s + 10))"

definition sketchHeight_at :: "memory \<Rightarrow> int \<Rightarrow> int" where
  "sketchHeight_at m s = sint (load16 m (s + 12))"

definition sampleSize_at :: "memory \<Rightarrow> int \<Rightarrow> int" where
  "sampleSize_at m s = sint (load16 m (s + 14))"

definition itemSize_at :: "memory \<Rightarrow> int \<Rightarrow> int" where
  "itemSize_at m s = sint (load16 m (s + 16))"

text \<open>
  The addressing macros. \<^verbatim>\<open>MAXALIGN\<close> rounds up to a multiple of 8. The products are
  taken in unbounded integers.
\<close>

definition MAXALIGN :: "int \<Rightarrow> int" where
  "MAXALIGN len = (len + 7) div 8 * 8"

definition SKETCH_SIZE_at :: "memory \<Rightarrow> int \<Rightarrow> int" where
  "SKETCH_SIZE_at m s = sketchWidth_at m s * sketchHeight_at m s"

definition SKETCH_BUCKETS :: "int \<Rightarrow> int" where
  "SKETCH_BUCKETS s = s + MAXALIGN 28"

definition SKETCH_SAMPLES :: "memory \<Rightarrow> int \<Rightarrow> int" where
  "SKETCH_SAMPLES m s =
     s + MAXALIGN 28 + MAXALIGN (SKETCH_SIZE_at m s * numSketches_at m s * 16)"

definition SKETCH_BUCKET_INDEX_at :: "memory \<Rightarrow> int \<Rightarrow> int \<Rightarrow> int \<Rightarrow> int \<Rightarrow> int" where
  "SKETCH_BUCKET_INDEX_at m s a i j = a * SKETCH_SIZE_at m s + i * sketchWidth_at m s + j"

definition SKETCH_BUCKET :: "memory \<Rightarrow> int \<Rightarrow> int \<Rightarrow> int \<Rightarrow> int \<Rightarrow> int" where
  "SKETCH_BUCKET m s a i j = SKETCH_BUCKETS s + 16 * SKETCH_BUCKET_INDEX_at m s a i j"

definition SKETCH_SAMPLE :: "memory \<Rightarrow> int \<Rightarrow> int \<Rightarrow> int \<Rightarrow> int \<Rightarrow> int" where
  "SKETCH_SAMPLE m s a i j =
     SKETCH_SAMPLES m s + 4 * (SKETCH_BUCKET_INDEX_at m s a i j * sampleSize_at m s)"

text \<open>
  \<^verbatim>\<open>omnisketch_sorted_items\<close> reads the bucket and its sample and returns a freshly
  allocated array, which is private to the caller: it is a list here.
\<close>

definition sorted_items_at :: "memory \<Rightarrow> int \<Rightarrow> int \<Rightarrow> item_hash_t list" where
  "sorted_items_at m bucket sample =
     (let sorted = map (\<lambda>k. item_with_hash (load32 m (sample + 4 * int k)))
                       [0..<unat (load16 m (bucket + 4))]
      in if m (bucket + 12) = 0 then pg_qsort cmp_item_hash sorted else sorted)"

text \<open>
  The loop of \<^verbatim>\<open>omnisketch_merge_buckets\<close>. Each round stores one item at
  \<^verbatim>\<open>dst_sample[k]\<close> and its hash in \<^verbatim>\<open>dst_bucket->maxHash\<close>; the guard reads the two
  \<^verbatim>\<open>sampleCount\<close> fields from memory every time.
\<close>

function merge_loop_at ::
    "int \<Rightarrow> item_hash_t list \<Rightarrow> item_hash_t list \<Rightarrow> int \<Rightarrow> int \<Rightarrow> int \<Rightarrow>
     nat \<Rightarrow> nat \<Rightarrow> nat \<Rightarrow> memory \<Rightarrow> nat \<times> memory" where
  "merge_loop_at sampleSz dst_items src_items dst_bucket src_bucket dst_sample i j k m =
     (if int k < sampleSz \<and>
         (i < unat (load16 m (dst_bucket + 4)) \<or> j < unat (load16 m (src_bucket + 4))) then
        (if i = unat (load16 m (dst_bucket + 4)) then
           merge_loop_at sampleSz dst_items src_items dst_bucket src_bucket dst_sample i (j + 1) (k + 1)
             (store32 (dst_bucket + 8) (hash (src_items ! j))
                (store32 (dst_sample + 4 * int k) (item (src_items ! j)) m))
         else if j = unat (load16 m (src_bucket + 4)) then
           merge_loop_at sampleSz dst_items src_items dst_bucket src_bucket dst_sample (i + 1) j (k + 1)
             (store32 (dst_bucket + 8) (hash (dst_items ! i))
                (store32 (dst_sample + 4 * int k) (item (dst_items ! i)) m))
         else if 0 < cmp_item_hash (dst_items ! i) (src_items ! j) then
           merge_loop_at sampleSz dst_items src_items dst_bucket src_bucket dst_sample i (j + 1) (k + 1)
             (store32 (dst_bucket + 8) (hash (src_items ! j))
                (store32 (dst_sample + 4 * int k) (item (src_items ! j)) m))
         else
           merge_loop_at sampleSz dst_items src_items dst_bucket src_bucket dst_sample (i + 1) j (k + 1)
             (store32 (dst_bucket + 8) (hash (dst_items ! i))
                (store32 (dst_sample + 4 * int k) (item (dst_items ! i)) m)))
      else (k, m))"
  by pat_completeness auto
termination
  by (relation "measure (\<lambda>(sampleSz, dst_items, src_items, dst_bucket, src_bucket, dst_sample, i, j, k, m).
        nat (sampleSz - int k))") auto

declare merge_loop_at.simps [simp del]

text \<open>
  \<^verbatim>\<open>omnisketch_merge_buckets\<close> on the four pointers and \<^verbatim>\<open>sampleSize\<close>. After the loop
  it adds the source's \<^verbatim>\<open>totalCount\<close>, sets \<^verbatim>\<open>isSorted\<close>, stores \<open>k\<close> in the
  \<^verbatim>\<open>uint16\<close> \<^verbatim>\<open>sampleCount\<close> and that count minus one in \<^verbatim>\<open>maxIndex\<close>.
\<close>

definition merge_buckets_at :: "int \<Rightarrow> int \<Rightarrow> int \<Rightarrow> int \<Rightarrow> int \<Rightarrow> memory \<Rightarrow> memory" where
  "merge_buckets_at sampleSz dst_bucket src_bucket dst_sample src_sample m =
     (if load16 m (src_bucket + 4) = 0 then m
      else
        (let dst_items = sorted_items_at m dst_bucket dst_sample;
             src_items = sorted_items_at m src_bucket src_sample;
             (k, m1) = merge_loop_at sampleSz dst_items src_items dst_bucket src_bucket dst_sample 0 0 0 m;
             m2 = store32 dst_bucket (load32 m1 dst_bucket + load32 m1 src_bucket) m1;
             m3 = m2(dst_bucket + 12 := 1);
             m4 = store16 (dst_bucket + 4) (of_nat k) m3
         in store16 (dst_bucket + 6) (load16 m4 (dst_bucket + 4) - 1) m4))"

text \<open>
  The three loops of \<^verbatim>\<open>omnisketch_combine\<close>. Each guard reads its bound from the header
  of \<open>src\<close> in the current memory, and the body computes the four pointers with the
  addressing macros and reads \<^verbatim>\<open>dst->sampleSize\<close>.
\<close>

function combine_loop_j :: "int \<Rightarrow> int \<Rightarrow> nat \<Rightarrow> nat \<Rightarrow> nat \<Rightarrow> memory \<Rightarrow> memory" where
  "combine_loop_j dst src a i j m =
     (if int j < sketchWidth_at m src then
        combine_loop_j dst src a i (j + 1)
          (merge_buckets_at (sampleSize_at m dst)
             (SKETCH_BUCKET m dst (int a) (int i) (int j)) (SKETCH_BUCKET m src (int a) (int i) (int j))
             (SKETCH_SAMPLE m dst (int a) (int i) (int j)) (SKETCH_SAMPLE m src (int a) (int i) (int j)) m)
      else m)"
  by pat_completeness auto
termination
proof (relation "measure (\<lambda>(dst, src, a, i, j, m). 32768 - j)")
  show "wf (measure (\<lambda>(dst, src, a, i, j, m). 32768 - j))" by simp
next
  fix dst src :: int and a i j :: nat and m :: memory
  assume "int j < sketchWidth_at m src"
  moreover have "sketchWidth_at m src < 32768"
    using sint_lt [of "load16 m (src + 10)"] by (simp add: sketchWidth_at_def)
  ultimately show "((dst, src, a, i, j + 1,
        merge_buckets_at (sampleSize_at m dst)
          (SKETCH_BUCKET m dst (int a) (int i) (int j)) (SKETCH_BUCKET m src (int a) (int i) (int j))
          (SKETCH_SAMPLE m dst (int a) (int i) (int j)) (SKETCH_SAMPLE m src (int a) (int i) (int j)) m),
       dst, src, a, i, j, m) \<in> measure (\<lambda>(dst, src, a, i, j, m). 32768 - j)"
    by simp
qed

declare combine_loop_j.simps [simp del]

function combine_loop_i :: "int \<Rightarrow> int \<Rightarrow> nat \<Rightarrow> nat \<Rightarrow> memory \<Rightarrow> memory" where
  "combine_loop_i dst src a i m =
     (if int i < sketchHeight_at m src then
        combine_loop_i dst src a (i + 1) (combine_loop_j dst src a i 0 m)
      else m)"
  by pat_completeness auto
termination
proof (relation "measure (\<lambda>(dst, src, a, i, m). 32768 - i)")
  show "wf (measure (\<lambda>(dst, src, a, i, m). 32768 - i))" by simp
next
  fix dst src :: int and a i :: nat and m :: memory
  assume "int i < sketchHeight_at m src"
  moreover have "sketchHeight_at m src < 32768"
    using sint_lt [of "load16 m (src + 12)"] by (simp add: sketchHeight_at_def)
  ultimately show "((dst, src, a, i + 1, combine_loop_j dst src a i 0 m), dst, src, a, i, m)
      \<in> measure (\<lambda>(dst, src, a, i, m). 32768 - i)"
    by simp
qed

declare combine_loop_i.simps [simp del]

function combine_loop_a :: "int \<Rightarrow> int \<Rightarrow> nat \<Rightarrow> memory \<Rightarrow> memory" where
  "combine_loop_a dst src a m =
     (if int a < numSketches_at m src then
        combine_loop_a dst src (a + 1) (combine_loop_i dst src a 0 m)
      else m)"
  by pat_completeness auto
termination
proof (relation "measure (\<lambda>(dst, src, a, m). 32768 - a)")
  show "wf (measure (\<lambda>(dst, src, a, m). 32768 - a))" by simp
next
  fix dst src :: int and a :: nat and m :: memory
  assume "int a < numSketches_at m src"
  moreover have "numSketches_at m src < 32768"
    using sint_lt [of "load16 m (src + 8)"] by (simp add: numSketches_at_def)
  ultimately show "((dst, src, a + 1, combine_loop_i dst src a 0 m), dst, src, a, m)
      \<in> measure (\<lambda>(dst, src, a, m). 32768 - a)"
    by simp
qed

declare combine_loop_a.simps [simp del]

definition omnisketch_equals_at :: "memory \<Rightarrow> int \<Rightarrow> int \<Rightarrow> bool" where
  "omnisketch_equals_at m a b =
     (numSketches_at m a = numSketches_at m b \<and>
      sketchHeight_at m a = sketchHeight_at m b \<and>
      sketchWidth_at m a = sketchWidth_at m b \<and>
      sampleSize_at m a = sampleSize_at m b \<and>
      itemSize_at m a = itemSize_at m b)"

text \<open>
  \<^verbatim>\<open>omnisketch_copy\<close>: \<^verbatim>\<open>palloc\<close> returns the address \<open>fresh\<close>, and \<^verbatim>\<open>memcpy\<close> copies
  \<open>len\<close> bytes, the value of the PostgreSQL macro \<^verbatim>\<open>VARSIZE_ANY(sketch)\<close>.
\<close>

definition omnisketch_copy_at :: "int \<Rightarrow> int \<Rightarrow> int \<Rightarrow> memory \<Rightarrow> memory" where
  "omnisketch_copy_at fresh len sketch m =
     (\<lambda>x. if fresh \<le> x \<and> x < fresh + len then m (sketch + (x - fresh)) else m x)"

text \<open>
  \<^verbatim>\<open>omnisketch_combine\<close> on two pointers (\<open>None\<close> is SQL NULL). The result is the
  pointer the function returns and the memory it leaves.
\<close>

definition omnisketch_combine_at ::
    "bool \<Rightarrow> int option \<Rightarrow> int option \<Rightarrow> int \<Rightarrow> int \<Rightarrow> memory \<Rightarrow> error + (int option \<times> memory)" where
  "omnisketch_combine_at agg a b fresh len m =
     (if \<not> agg then Inl NotAggregateContext
      else case a of
        None \<Rightarrow> (case b of
                   None \<Rightarrow> Inr (None, m)
                 | Some src \<Rightarrow> Inr (Some fresh, omnisketch_copy_at fresh len src m))
      | Some dst \<Rightarrow>
          (case b of
             None \<Rightarrow> Inr (Some dst, m)
           | Some src \<Rightarrow>
               if \<not> omnisketch_equals_at m src dst then Inl SketchesDoNotMatch
               else (let m1 = combine_loop_a dst src 0 m
                     in Inr (Some dst, store32 (dst + 20) (load32 m1 (dst + 20) + load32 m1 (src + 20)) m1))))"

text \<open>
  The bytes of the sketch at \<open>s\<close>: the header, one bucket per cell and
  \<^verbatim>\<open>sampleSize\<close> item IDs per cell, the cells being those the loops visit.
\<close>

definition sketch_cells :: "memory \<Rightarrow> int \<Rightarrow> int" where
  "sketch_cells m s =
     int (nat (numSketches_at m s) * (nat (sketchWidth_at m s) * nat (sketchHeight_at m s)))"

definition sketch_length :: "memory \<Rightarrow> int \<Rightarrow> int" where
  "sketch_length m s =
     MAXALIGN 28 + MAXALIGN (sketch_cells m s * 16)
       + MAXALIGN (sketch_cells m s * 4 * int (nat (sampleSize_at m s)))"

definition sketch_bytes :: "memory \<Rightarrow> int \<Rightarrow> int set" where
  "sketch_bytes m s = {x. s \<le> x \<and> x < s + sketch_length m s}"

text \<open>The bytes behind the header, and the bytes of one cell: its bucket and \<open>B\<close> IDs.\<close>

definition sketch_data :: "memory \<Rightarrow> int \<Rightarrow> int set" where
  "sketch_data m s = {x. s + MAXALIGN 28 \<le> x \<and> x < s + sketch_length m s}"

definition cell_bytes :: "int \<Rightarrow> int \<Rightarrow> int \<Rightarrow> int set" where
  "cell_bytes bucket sample B =
     {x. bucket \<le> x \<and> x < bucket + 16} \<union> {x. sample \<le> x \<and> x < sample + 4 * B}"

text \<open>Two memories that agree on every byte outside the set \<open>S\<close>.\<close>

definition unchanged_outside :: "int set \<Rightarrow> memory \<Rightarrow> memory \<Rightarrow> bool" where
  "unchanged_outside S m m' = (\<forall>x. x \<notin> S \<longrightarrow> m' x = m x)"

text \<open>
  The sketch a memory holds at an address, read field by field, and a memory that holds
  the example sketch \<open>ex_A1\<close> at address 0 and \<open>ex_B1\<close> at address 1000
  (88 bytes each). \<open>ex_memory'\<close> is the memory after combine has run on the two.
\<close>

definition bucket_at :: "memory \<Rightarrow> int \<Rightarrow> bucket_t" where
  "bucket_at m b =
     \<lparr>totalCount = load32 m b, sampleCount = unat (load16 m (b + 4)),
      maxIndex = unat (load16 m (b + 6)), maxHash = load32 m (b + 8),
      isSorted = (m (b + 12) \<noteq> 0)\<rparr>"

definition sketch_at :: "memory \<Rightarrow> int \<Rightarrow> omnisketch_t" where
  "sketch_at m s =
     \<lparr>flags = load32 m (s + 4), numSketches = nat (numSketches_at m s),
      sketchWidth = nat (sketchWidth_at m s), sketchHeight = nat (sketchHeight_at m s),
      sampleSize = nat (sampleSize_at m s), itemSize = itemSize_at m s,
      count = load32 m (s + 20), seed = load32 m (s + 24),
      buckets = map (\<lambda>idx. bucket_at m (SKETCH_BUCKETS s + 16 * int idx)) [0..<nat (sketch_cells m s)],
      samples = map (\<lambda>idx. map (\<lambda>k. load32 m (SKETCH_SAMPLES m s + 4 * (int idx * sampleSize_at m s + int k)))
                                 [0..<nat (sampleSize_at m s)])
                    [0..<nat (sketch_cells m s)]\<rparr>"

definition ex_bytes_A :: "8 word list" where
  "ex_bytes_A =
     [96, 1, 0, 0, 0, 0, 0, 0, 1, 0, 2, 0, 1, 0, 3, 0,
      40, 0, 0, 0, 1, 0, 0, 0, 6, 0, 0, 0, 0, 0, 0, 0,
      0, 0, 0, 0, 0, 0, 0, 0, 0, 0, 0, 0, 0, 0, 0, 0,
      1, 0, 0, 0, 1, 0, 0, 0, 56, 166, 64, 208, 0, 0, 0, 0,
      0, 0, 0, 0, 0, 0, 0, 0, 0, 0, 0, 0, 121, 199, 47, 7,
      0, 0, 0, 0, 0, 0, 0, 0]"

definition ex_bytes_B :: "8 word list" where
  "ex_bytes_B =
     [96, 1, 0, 0, 0, 0, 0, 0, 1, 0, 2, 0, 1, 0, 3, 0,
      40, 0, 0, 0, 1, 0, 0, 0, 9, 0, 0, 0, 0, 0, 0, 0,
      0, 0, 0, 0, 0, 0, 0, 0, 0, 0, 0, 0, 0, 0, 0, 0,
      1, 0, 0, 0, 1, 0, 0, 0, 20, 163, 105, 201, 0, 0, 0, 0,
      0, 0, 0, 0, 0, 0, 0, 0, 0, 0, 0, 0, 138, 188, 169, 22,
      0, 0, 0, 0, 0, 0, 0, 0]"

definition ex_memory :: memory where
  "ex_memory =
     (\<lambda>x. if 0 \<le> x \<and> x < 88 then ex_bytes_A ! nat x
          else if 1000 \<le> x \<and> x < 1088 then ex_bytes_B ! nat (x - 1000)
          else 0)"

definition ex_memory' :: memory where
  "ex_memory' =
     store32 20 2 (store16 54 1 (store16 52 2 ((store32 48 2
       (store32 56 3493897784 (store32 80 120571769
         (store32 56 3379143444 (store32 76 380222602 ex_memory)))))(60 := 1))))"

definition ex_memory1 :: memory where
  "ex_memory1 =
     store16 54 1 (store16 52 2 ((store32 48 2
       (store32 56 3493897784 (store32 80 120571769
         (store32 56 3379143444 (store32 76 380222602 ex_memory)))))(60 := 1)))"

section \<open>Insertion into a sample that is not full\<close>

lemma sample_add_not_full:
  assumes "sampleCount bucket < sampleSize sketch"
  shows "omnisketch_sample_add sketch bucket sample itm =
     ((if sampleCount bucket = 0 \<or> maxHash bucket < SKETCH_HASH itm SKETCH_SEED
       then bucket\<lparr>maxIndex := sampleCount bucket, maxHash := SKETCH_HASH itm SKETCH_SEED\<rparr>
       else bucket)\<lparr>sampleCount := sampleCount bucket + 1\<rparr>,
      sample[sampleCount bucket := itm])"
  using assms by (simp add: omnisketch_sample_add_def Let_def)

lemma rescan_step_isSorted: "isSorted (rescan_step sample k bucket) = isSorted bucket"
  by (simp add: rescan_step_def Let_def)

lemma fold_rescan_isSorted:
  "isSorted (fold (rescan_step sample) ks bucket) = isSorted bucket"
  by (induction ks arbitrary: bucket) (simp_all add: rescan_step_isSorted)

lemma sample_add_isSorted:
  "isSorted (fst (omnisketch_sample_add sketch bucket sample itm)) = isSorted bucket"
  by (simp add: omnisketch_sample_add_def Let_def rescan_max_def fold_rescan_isSorted)

text \<open>
  C4. The claim: inserting an ID into a bucket whose sample is not full appends it,
  increments the sample count, moves the maximum when the new hash exceeds it (or the
  bucket was empty), and clears \<^verbatim>\<open>isSorted\<close>. The code does all but the last: at a
  sorted bucket holding two of three IDs the third is appended and \<^verbatim>\<open>isSorted\<close> is
  still set, although its hash is below the one stored before it.
\<close>

theorem sample_add_keeps_isSorted_flag:
  "omnisketch_sample_add (omnisketch_allocate 1 2 1 3 5 6)
     \<lparr>totalCount = 3, sampleCount = 2, maxIndex = 1, maxHash = 3493897784, isSorted = True\<rparr>
     [537280818, 120571769, 0] 672669677 =
   (\<lparr>totalCount = 3, sampleCount = 3, maxIndex = 1, maxHash = 3493897784, isSorted = True\<rparr>,
    [537280818, 120571769, 672669677])
   \<and> SKETCH_HASH 672669677 SKETCH_SEED < SKETCH_HASH 120571769 SKETCH_SEED"
  by (simp add: omnisketch_sample_add_def omnisketch_allocate_def Let_def SKETCH_HASH_def
      SKETCH_SEED_def XXH32_def XXH32_avalanche_def XXH_rotl32_def)

section \<open>Header fields under the loops\<close>

lemma merge_at_header:
  "numSketches (merge_at src a i j dst) = numSketches dst"
  "sketchWidth (merge_at src a i j dst) = sketchWidth dst"
  "sketchHeight (merge_at src a i j dst) = sketchHeight dst"
  "sampleSize (merge_at src a i j dst) = sampleSize dst"
  "itemSize (merge_at src a i j dst) = itemSize dst"
  "count (merge_at src a i j dst) = count dst"
  "seed (merge_at src a i j dst) = seed dst"
  "flags (merge_at src a i j dst) = flags dst"
  by (simp_all add: merge_at_def Let_def split: prod.splits)

lemma fold_merge_j_header:
  "numSketches (fold (\<lambda>j. merge_at src a i j) js dst) = numSketches dst"
  "sketchWidth (fold (\<lambda>j. merge_at src a i j) js dst) = sketchWidth dst"
  "sketchHeight (fold (\<lambda>j. merge_at src a i j) js dst) = sketchHeight dst"
  "sampleSize (fold (\<lambda>j. merge_at src a i j) js dst) = sampleSize dst"
  "itemSize (fold (\<lambda>j. merge_at src a i j) js dst) = itemSize dst"
  "count (fold (\<lambda>j. merge_at src a i j) js dst) = count dst"
  "seed (fold (\<lambda>j. merge_at src a i j) js dst) = seed dst"
  "flags (fold (\<lambda>j. merge_at src a i j) js dst) = flags dst"
  by (induction js arbitrary: dst; simp add: merge_at_header)+

lemma fold_merge_i_header:
  "numSketches (fold (\<lambda>i. fold (\<lambda>j. merge_at src a i j) js) is dst) = numSketches dst"
  "sketchWidth (fold (\<lambda>i. fold (\<lambda>j. merge_at src a i j) js) is dst) = sketchWidth dst"
  "sketchHeight (fold (\<lambda>i. fold (\<lambda>j. merge_at src a i j) js) is dst) = sketchHeight dst"
  "sampleSize (fold (\<lambda>i. fold (\<lambda>j. merge_at src a i j) js) is dst) = sampleSize dst"
  "itemSize (fold (\<lambda>i. fold (\<lambda>j. merge_at src a i j) js) is dst) = itemSize dst"
  "count (fold (\<lambda>i. fold (\<lambda>j. merge_at src a i j) js) is dst) = count dst"
  "seed (fold (\<lambda>i. fold (\<lambda>j. merge_at src a i j) js) is dst) = seed dst"
  "flags (fold (\<lambda>i. fold (\<lambda>j. merge_at src a i j) js) is dst) = flags dst"
  by (induction "is" arbitrary: dst; simp add: fold_merge_j_header)+

lemma fold_merge_a_header:
  "numSketches (fold (\<lambda>a. fold (\<lambda>i. fold (\<lambda>j. merge_at src a i j) js) is) as dst) = numSketches dst"
  "sketchWidth (fold (\<lambda>a. fold (\<lambda>i. fold (\<lambda>j. merge_at src a i j) js) is) as dst) = sketchWidth dst"
  "sketchHeight (fold (\<lambda>a. fold (\<lambda>i. fold (\<lambda>j. merge_at src a i j) js) is) as dst) = sketchHeight dst"
  "sampleSize (fold (\<lambda>a. fold (\<lambda>i. fold (\<lambda>j. merge_at src a i j) js) is) as dst) = sampleSize dst"
  "itemSize (fold (\<lambda>a. fold (\<lambda>i. fold (\<lambda>j. merge_at src a i j) js) is) as dst) = itemSize dst"
  "count (fold (\<lambda>a. fold (\<lambda>i. fold (\<lambda>j. merge_at src a i j) js) is) as dst) = count dst"
  "seed (fold (\<lambda>a. fold (\<lambda>i. fold (\<lambda>j. merge_at src a i j) js) is) as dst) = seed dst"
  "flags (fold (\<lambda>a. fold (\<lambda>i. fold (\<lambda>j. merge_at src a i j) js) is) as dst) = flags dst"
  by (induction as arbitrary: dst; simp add: fold_merge_i_header)+

lemma combine_loops_header:
  "numSketches (combine_loops src dst) = numSketches dst"
  "sketchWidth (combine_loops src dst) = sketchWidth dst"
  "sketchHeight (combine_loops src dst) = sketchHeight dst"
  "sampleSize (combine_loops src dst) = sampleSize dst"
  "itemSize (combine_loops src dst) = itemSize dst"
  "count (combine_loops src dst) = count dst"
  "seed (combine_loops src dst) = seed dst"
  "flags (combine_loops src dst) = flags dst"
  by (simp_all add: combine_loops_def fold_merge_a_header)

section \<open>The contract of combine\<close>

lemma sint_add_no_overflow:
  fixes x y :: uint32
  assumes "- (2 ^ 31) \<le> sint x + sint y" and "sint x + sint y < 2 ^ 31"
  shows "sint (x + y) = sint x + sint y"
  using assms by (simp add: sint_word_add signed_take_bit_int_eq_self)

text \<open>
  C7. Called as an aggregate's combine function, \<^verbatim>\<open>omnisketch_combine\<close> returns NULL for
  two NULLs and the other argument when exactly one is NULL; with both present it fails
  when they differ in any of the five dimensions, and otherwise returns a sketch whose
  \<^verbatim>\<open>count\<close> is the sum of the two counts: as 32-bit values always, and as integers
  whenever the sum fits the signed 32-bit field.
\<close>

theorem combine_contract:
  "omnisketch_combine True None None = Inr None
   \<and> omnisketch_combine True None (Some b) = Inr (Some b)
   \<and> omnisketch_combine True (Some a) None = Inr (Some a)
   \<and> (numSketches a \<noteq> numSketches b \<or> sketchHeight a \<noteq> sketchHeight b \<or>
       sketchWidth a \<noteq> sketchWidth b \<or> sampleSize a \<noteq> sampleSize b \<or> itemSize a \<noteq> itemSize b
       \<longrightarrow> omnisketch_combine True (Some a) (Some b) = Inl SketchesDoNotMatch)
   \<and> (numSketches a = numSketches b \<and> sketchHeight a = sketchHeight b \<and>
       sketchWidth a = sketchWidth b \<and> sampleSize a = sampleSize b \<and> itemSize a = itemSize b
       \<longrightarrow> (\<exists>c. omnisketch_combine True (Some a) (Some b) = Inr (Some c)
               \<and> count c = count a + count b
               \<and> (- (2 ^ 31) \<le> omnisketch_count a + omnisketch_count b
                    \<and> omnisketch_count a + omnisketch_count b < 2 ^ 31
                  \<longrightarrow> omnisketch_count c = omnisketch_count a + omnisketch_count b)))"
proof -
  have nulls: "omnisketch_combine True None None = Inr None"
    "omnisketch_combine True None (Some b) = Inr (Some b)"
    "omnisketch_combine True (Some a) None = Inr (Some a)"
    by (simp_all add: omnisketch_combine_def omnisketch_copy_def)
  have mismatch: "omnisketch_combine True (Some a) (Some b) = Inl SketchesDoNotMatch"
    if "numSketches a \<noteq> numSketches b \<or> sketchHeight a \<noteq> sketchHeight b \<or>
        sketchWidth a \<noteq> sketchWidth b \<or> sampleSize a \<noteq> sampleSize b \<or> itemSize a \<noteq> itemSize b"
    using that by (auto simp add: omnisketch_combine_def omnisketch_equals_def)
  have match: "\<exists>c. omnisketch_combine True (Some a) (Some b) = Inr (Some c)
               \<and> count c = count a + count b
               \<and> (- (2 ^ 31) \<le> omnisketch_count a + omnisketch_count b
                    \<and> omnisketch_count a + omnisketch_count b < 2 ^ 31
                  \<longrightarrow> omnisketch_count c = omnisketch_count a + omnisketch_count b)"
    if "numSketches a = numSketches b \<and> sketchHeight a = sketchHeight b \<and>
        sketchWidth a = sketchWidth b \<and> sampleSize a = sampleSize b \<and> itemSize a = itemSize b"
  proof -
    define c where "c = (combine_loops b a)\<lparr>count := count (combine_loops b a) + count b\<rparr>"
    have "omnisketch_combine True (Some a) (Some b) = Inr (Some c)"
      using that by (simp add: omnisketch_combine_def omnisketch_equals_def c_def Let_def)
    moreover have "count c = count a + count b"
      by (simp add: c_def combine_loops_header)
    ultimately show ?thesis
      by (auto simp add: omnisketch_count_def sint_add_no_overflow)
  qed
  from nulls mismatch match show ?thesis by blast
qed

theorem combine_contract_witness:
  "(\<exists>c. omnisketch_combine True (Some (omnisketch_allocate 1 2 1 3 5 6))
          (Some (omnisketch_allocate 1 2 1 3 5 9)) = Inr (Some c)
        \<and> count c = count (omnisketch_allocate 1 2 1 3 5 6) + count (omnisketch_allocate 1 2 1 3 5 9)
        \<and> omnisketch_count c = 0)
   \<and> omnisketch_combine True (Some (omnisketch_allocate 1 2 1 3 5 6))
        (Some (omnisketch_allocate 1 4 1 3 5 9)) = Inl SketchesDoNotMatch"
  using combine_contract [where a = "omnisketch_allocate 1 2 1 3 5 6" and b = "omnisketch_allocate 1 2 1 3 5 9"]
    combine_contract [where a = "omnisketch_allocate 1 2 1 3 5 6" and b = "omnisketch_allocate 1 4 1 3 5 9"]
  by (simp add: omnisketch_allocate_def omnisketch_count_def)

section \<open>A counted bucket keeps a sample\<close>

lemma fold_invariant:
  assumes "P s" and "\<And>x t. P t \<Longrightarrow> P (f x t)"
  shows "P (fold f xs s)"
  using assms(1) by (induction xs arbitrary: s) (simp_all add: assms(2))

lemma pick_sizes_stop: "\<not> (b < 32 \<and> B < 1024) \<Longrightarrow> pick_sizes bits B b = (B, b)"
  by (subst pick_sizes.simps) auto

lemma pick_sizes_go:
  "b < 32 \<Longrightarrow> B < 1024 \<Longrightarrow> pick_sizes bits B b = pick_sizes bits (B + 1) (bits (B + 1))"
  by (subst pick_sizes.simps) auto

lemma pick_sizes_ge: "B \<le> fst (pick_sizes bits B b)"
proof (induction bits B b rule: pick_sizes.induct)
  case (1 bits B b)
  show ?case
  proof (cases "b < 32 \<and> B < 1024")
    case True
    with 1 have "B + 1 \<le> fst (pick_sizes bits (B + 1) (bits (B + 1)))" by simp
    with True show ?thesis by (simp add: pick_sizes_go)
  next
    case False
    then show ?thesis using pick_sizes_stop [of b B bits] by simp
  qed
qed

lemma pick_sizes_pos: "1 \<le> fst (pick_sizes bits 0 0)"
  using pick_sizes_ge [of "0 + 1" bits "bits (0 + 1)"] by (simp add: pick_sizes_go)

lemma rescan_step_counts:
  "sampleCount (rescan_step sample k bucket) = sampleCount bucket"
  "totalCount (rescan_step sample k bucket) = totalCount bucket"
  by (simp_all add: rescan_step_def Let_def)

lemma fold_rescan_counts:
  "sampleCount (fold (rescan_step sample) ks bucket) = sampleCount bucket"
  "totalCount (fold (rescan_step sample) ks bucket) = totalCount bucket"
  by (induction ks arbitrary: bucket; simp add: rescan_step_counts)+

lemma rescan_max_counts:
  "sampleCount (rescan_max sample bucket) = sampleCount bucket"
  "totalCount (rescan_max sample bucket) = totalCount bucket"
  by (simp_all add: rescan_max_def fold_rescan_counts)

lemma sample_add_count_pos:
  assumes "1 \<le> sampleSize sketch"
  shows "0 < sampleCount (fst (omnisketch_sample_add sketch bucket sample itm))"
  using assms by (auto simp add: omnisketch_sample_add_def Let_def rescan_max_counts)

lemma merge_loop_stop:
  "\<not> (k < sampleSz \<and> (i < dn \<or> j < sn)) \<Longrightarrow>
   merge_loop sampleSz ds ss dn sn i j k smp mh = (k, smp, mh)"
  by (subst merge_loop.simps) auto

lemma merge_loop_src:
  "k < sampleSz \<Longrightarrow> i < dn \<or> j < sn \<Longrightarrow>
   i = dn \<or> (j \<noteq> sn \<and> 0 < cmp_item_hash (ds ! i) (ss ! j)) \<Longrightarrow>
   merge_loop sampleSz ds ss dn sn i j k smp mh =
   merge_loop sampleSz ds ss dn sn i (j + 1) (k + 1) (smp[k := item (ss ! j)]) (hash (ss ! j))"
  by (subst merge_loop.simps) auto

lemma merge_loop_dst:
  "k < sampleSz \<Longrightarrow> i < dn \<or> j < sn \<Longrightarrow>
   i \<noteq> dn \<Longrightarrow> j = sn \<or> \<not> 0 < cmp_item_hash (ds ! i) (ss ! j) \<Longrightarrow>
   merge_loop sampleSz ds ss dn sn i j k smp mh =
   merge_loop sampleSz ds ss dn sn (i + 1) j (k + 1) (smp[k := item (ds ! i)]) (hash (ds ! i))"
  by (subst merge_loop.simps) auto

lemma merge_loop_cases:
  obtains (stop) "\<not> (k < sampleSz \<and> (i < dn \<or> j < sn))"
  | (src) "k < sampleSz" "i < dn \<or> j < sn" "i = dn \<or> (j \<noteq> sn \<and> 0 < cmp_item_hash (ds ! i) (ss ! j))"
  | (dst) "k < sampleSz" "i < dn \<or> j < sn" "i \<noteq> dn" "j = sn \<or> \<not> 0 < cmp_item_hash (ds ! i) (ss ! j)"
  by blast

lemma merge_loop_k_mono:
  "k \<le> fst (merge_loop sampleSz ds ss dn sn i j k smp mh)"
proof (induction "sampleSz - k" arbitrary: i j k smp mh)
  case 0
  then show ?case by (simp add: merge_loop_stop)
next
  case (Suc n)
  then have n: "n = sampleSz - (k + 1)" by simp
  show ?case
  proof (cases rule: merge_loop_cases [where k = k and sampleSz = sampleSz and i = i and dn = dn and j = j and sn = sn and ds = ds and ss = ss])
    case stop
    then show ?thesis by (simp add: merge_loop_stop)
  next
    case src
    then show ?thesis
      using Suc.hyps(1) [OF n, of i "j + 1" "smp[k := item (ss ! j)]" "hash (ss ! j)"]
      by (simp add: merge_loop_src)
  next
    case dst
    then show ?thesis
      using Suc.hyps(1) [OF n, of "i + 1" j "smp[k := item (ds ! i)]" "hash (ds ! i)"]
      by (simp add: merge_loop_dst)
  qed
qed

lemma merge_loop_first:
  assumes "1 \<le> sampleSz" and "0 < sn"
  shows "1 \<le> fst (merge_loop sampleSz ds ss dn sn 0 0 0 smp mh)"
proof (cases rule: merge_loop_cases [where k = 0 and sampleSz = sampleSz and i = 0 and dn = dn and j = 0 and sn = sn and ds = ds and ss = ss])
  case stop
  with assms show ?thesis by simp
next
  case src
  then show ?thesis
    using merge_loop_k_mono [of "0 + 1" sampleSz ds ss dn sn 0 "0 + 1" "smp[0 := item (ss ! 0)]" "hash (ss ! 0)"]
    by (simp add: merge_loop_src)
next
  case dst
  then show ?thesis
    using merge_loop_k_mono [of "0 + 1" sampleSz ds ss dn sn "0 + 1" 0 "smp[0 := item (ds ! 0)]" "hash (ds ! 0)"]
    by (simp add: merge_loop_dst)
qed

lemma merge_buckets_empty_src:
  "sampleCount (fst sc) = 0 \<Longrightarrow> omnisketch_merge_buckets sampleSz dc sc = dc"
  by (simp add: omnisketch_merge_buckets_def Let_def)

lemma merge_buckets_count_pos:
  assumes "1 \<le> sampleSz" and "0 < sampleCount (fst sc)"
  shows "0 < sampleCount (fst (omnisketch_merge_buckets sampleSz dc sc))"
proof -
  have "1 \<le> fst (merge_loop sampleSz (omnisketch_sorted_items (fst dc) (snd dc))
      (omnisketch_sorted_items (fst sc) (snd sc)) (sampleCount (fst dc)) (sampleCount (fst sc))
      0 0 0 (snd dc) (maxHash (fst dc)))"
    using assms by (rule merge_loop_first)
  moreover obtain k smp mh where "merge_loop sampleSz (omnisketch_sorted_items (fst dc) (snd dc))
      (omnisketch_sorted_items (fst sc) (snd sc)) (sampleCount (fst dc)) (sampleCount (fst sc))
      0 0 0 (snd dc) (maxHash (fst dc)) = (k, smp, mh)"
    using prod_cases3 by blast
  ultimately show ?thesis
    using assms(2) by (simp add: omnisketch_merge_buckets_def Let_def)
qed

lemma finalize_bucket_counts:
  "sampleCount (fst (finalize_bucket c)) = sampleCount (fst c)"
  "totalCount (fst (finalize_bucket c)) = totalCount (fst c)"
  by (simp_all add: finalize_bucket_def Let_def)

lemma step_inv_refl: "1 \<le> sampleSize s \<Longrightarrow> nonempty_inv s \<Longrightarrow> step_inv s s"
  by (simp add: step_inv_def keeps_samples_def)

lemma step_inv_update:
  assumes inv: "step_inv s0 t"
    and fine: "idx < length (buckets t) \<Longrightarrow> fine (buckets t ! idx) b'"
    and t': "buckets t' = (buckets t)[idx := b']" "sampleSize t' = sampleSize t"
  shows "step_inv s0 t'"
proof (cases "idx < length (buckets t)")
  case False
  then have "buckets t' = buckets t" using t' by (simp add: list_update_beyond not_less)
  with inv t' show ?thesis by (simp add: step_inv_def nonempty_inv_def keeps_samples_def)
next
  case True
  note f = fine [OF True]
  have ne: "nonempty_inv t'"
    unfolding nonempty_inv_def
  proof (intro ballI impI)
    fix b assume "b \<in> set (buckets t')" and pos: "0 < totalCount b"
    then have "b = b' \<or> b \<in> set (buckets t)"
      using t'(1) set_update_subset_insert [of "buckets t" idx b'] by auto
    then show "0 < sampleCount b"
      using pos f inv by (auto simp add: fine_def step_inv_def nonempty_inv_def)
  qed
  have ks: "keeps_samples s0 t'"
    unfolding keeps_samples_def
  proof (intro conjI allI impI)
    show "length (buckets t') = length (buckets s0)"
      using inv t' by (simp add: step_inv_def keeps_samples_def)
  next
    fix i assume i: "i < length (buckets s0)" and pos: "0 < sampleCount (buckets s0 ! i)"
    then have old: "0 < sampleCount (buckets t ! i)" and len: "i < length (buckets t)"
      using inv by (simp_all add: step_inv_def keeps_samples_def)
    show "0 < sampleCount (buckets t' ! i)"
    proof (cases "i = idx")
      case True
      with old f len t' show ?thesis by (simp add: fine_def)
    next
      case False
      with old t' show ?thesis by simp
    qed
  qed
  from inv ne ks t' show ?thesis by (simp add: step_inv_def)
qed

lemma add_hash_row_step_inv:
  assumes "step_inv s0 t"
  shows "step_inv s0 (add_hash_row column hsh itm i t)"
proof -
  define idx where "idx = SKETCH_BUCKET_INDEX t column i (unat (SKETCH_HASH hsh (of_nat i)) mod sketchWidth t)"
  define b1 where "b1 = (buckets t ! idx)\<lparr>totalCount := totalCount (buckets t ! idx) + 1\<rparr>"
  define r where "r = omnisketch_sample_add t b1 (samples t ! idx) itm"
  have t': "add_hash_row column hsh itm i t =
      t\<lparr>buckets := (buckets t)[idx := fst r], samples := (samples t)[idx := snd r]\<rparr>"
    by (simp add: add_hash_row_def Let_def idx_def b1_def r_def split_beta)
  have "0 < sampleCount (fst r)"
    using assms unfolding r_def by (intro sample_add_count_pos) (simp add: step_inv_def)
  then have "fine (buckets t ! idx) (fst r)" by (simp add: fine_def)
  with assms show ?thesis
    by (rule_tac step_inv_update [where t = t and idx = idx and b' = "fst r"]) (simp_all add: t')
qed

lemma add_column_step_inv:
  assumes "step_inv s0 t"
  shows "step_inv s0 (add_column ident record i t)"
proof (cases "record ! i")
  case Dropped
  with assms show ?thesis by (simp add: add_column_def)
next
  case Null
  with assms show ?thesis
    by (simp add: add_column_def omnisketch_add_hash_def fold_invariant add_hash_row_step_inv)
next
  case (Hashed h)
  with assms show ?thesis
    by (simp add: add_column_def omnisketch_add_hash_def fold_invariant add_hash_row_step_inv)
qed

lemma merge_at_step_inv:
  assumes "step_inv s0 t"
  shows "step_inv s0 (merge_at src a i j t)"
proof -
  define di where "di = SKETCH_BUCKET_INDEX t a i j"
  define si where "si = SKETCH_BUCKET_INDEX src a i j"
  define r where "r = omnisketch_merge_buckets (sampleSize t)
      (buckets t ! di, samples t ! di) (buckets src ! si, samples src ! si)"
  have t': "merge_at src a i j t =
      t\<lparr>buckets := (buckets t)[di := fst r], samples := (samples t)[di := snd r]\<rparr>"
    by (simp add: merge_at_def Let_def di_def si_def r_def split_beta)
  have "fine (buckets t ! di) (fst r)" if "di < length (buckets t)"
  proof (cases "sampleCount (buckets src ! si) = 0")
    case True
    then have "fst r = buckets t ! di" by (simp add: r_def merge_buckets_empty_src)
    moreover have "buckets t ! di \<in> set (buckets t)" using that by simp
    ultimately show ?thesis
      using assms by (auto simp add: fine_def step_inv_def nonempty_inv_def)
  next
    case False
    then have "0 < sampleCount (fst r)"
      using assms unfolding r_def by (intro merge_buckets_count_pos) (simp_all add: step_inv_def)
    then show ?thesis by (simp add: fine_def)
  qed
  with assms show ?thesis
    by (rule_tac step_inv_update [where t = t and idx = di and b' = "fst r"]) (simp_all add: t')
qed

lemma finalize_at_step_inv:
  assumes "step_inv s0 t"
  shows "step_inv s0 (finalize_at i j k t)"
proof -
  define idx where "idx = SKETCH_BUCKET_INDEX t i j k"
  define r where "r = finalize_bucket (buckets t ! idx, samples t ! idx)"
  have t': "finalize_at i j k t =
      t\<lparr>buckets := (buckets t)[idx := fst r], samples := (samples t)[idx := snd r]\<rparr>"
    by (simp add: finalize_at_def Let_def idx_def r_def split_beta)
  have "fine (buckets t ! idx) (fst r)" if "idx < length (buckets t)"
  proof -
    have "buckets t ! idx \<in> set (buckets t)" using that by simp
    then show ?thesis
      using assms by (auto simp add: fine_def r_def finalize_bucket_counts step_inv_def nonempty_inv_def)
  qed
  with assms show ?thesis
    by (rule_tac step_inv_update [where t = t and idx = idx and b' = "fst r"]) (simp_all add: t')
qed

lemma add_step_inv:
  assumes "1 \<le> sampleSize s" and "nonempty_inv s"
    and "omnisketch_add (Some s) wc d bits rnd record = Inr s'"
  shows "step_inv s s'"
proof -
  define s1 where "s1 = s\<lparr>count := count s + 1\<rparr>"
  have "step_inv s s1"
    using assms(1,2) by (simp add: s1_def step_inv_def nonempty_inv_def keeps_samples_def)
  then have "step_inv s (fold (add_column (XXH32 (count s1) (seed s1)) record) [0..<length record] s1)"
    by (rule fold_invariant) (rule add_column_step_inv)
  moreover have "s' = fold (add_column (XXH32 (count s1) (seed s1)) record) [0..<length record] s1"
    using assms(3) by (simp add: omnisketch_add_def Let_def s1_def split: if_splits)
  ultimately show ?thesis by simp
qed

lemma combine_step_inv:
  assumes "1 \<le> sampleSize s" and "nonempty_inv s"
    and "omnisketch_combine True (Some s) (Some b) = Inr (Some s')"
  shows "step_inv s s'"
proof -
  have "step_inv s s" using assms(1,2) by (rule step_inv_refl)
  then have "step_inv s (combine_loops b s)"
    unfolding combine_loops_def
    by (intro fold_invariant [where P = "step_inv s"]) (simp_all add: merge_at_step_inv)
  moreover have "s' = (combine_loops b s)\<lparr>count := count (combine_loops b s) + count b\<rparr>"
    using assms(3) by (simp add: omnisketch_combine_def Let_def split: if_splits)
  ultimately show ?thesis
    by (simp add: step_inv_def nonempty_inv_def keeps_samples_def)
qed

lemma finalize_step_inv:
  assumes "1 \<le> sampleSize s" and "nonempty_inv s"
  shows "step_inv s (omnisketch_finalize s)"
proof -
  have "step_inv s s" using assms by (rule step_inv_refl)
  then show ?thesis
    unfolding omnisketch_finalize_def
    by (intro fold_invariant [where P = "step_inv s"]) (simp_all add: finalize_at_step_inv)
qed

lemma first_add_inv:
  assumes "omnisketch_add None wc d bits rnd record = Inr s"
  shows "1 \<le> sampleSize s \<and> nonempty_inv s"
proof -
  obtain B b where pk: "pick_sizes bits 0 0 = (B, b)" by (cases "pick_sizes bits 0 0")
  have B: "1 \<le> B" using pick_sizes_pos [of bits] pk by simp
  define s0 where "s0 = omnisketch_allocate (length record) (1 + wc) d B b rnd"
  have "1 \<le> sampleSize s0" "nonempty_inv s0"
    using B by (simp_all add: s0_def omnisketch_allocate_def nonempty_inv_def empty_bucket_def)
  moreover have "omnisketch_add (Some s0) wc d bits rnd record = Inr s"
    using assms by (simp add: omnisketch_add_def pk s0_def Let_def)
  ultimately have "step_inv s0 s" by (rule add_step_inv)
  then show ?thesis by (simp add: step_inv_def)
qed

lemma reachable_inv:
  "reachable s \<Longrightarrow> 1 \<le> sampleSize s \<and> nonempty_inv s"
proof (induction rule: reachable.induct)
  case (reach_first wc d bits rnd attrs s)
  then show ?case by (rule first_add_inv)
next
  case (reach_add s wc d bits rnd attrs s')
  then have "step_inv s s'" by (intro add_step_inv) simp_all
  then show ?case by (simp add: step_inv_def)
next
  case (reach_combine a b c)
  then have "step_inv a c" by (intro combine_step_inv) simp_all
  then show ?case by (simp add: step_inv_def)
next
  case (reach_finalize s)
  then have "step_inv s (omnisketch_finalize s)" by (intro finalize_step_inv) simp_all
  then show ?case by (simp add: step_inv_def)
qed

lemma step_keeps_samples:
  assumes "reachable s" and "step s s'"
  shows "keeps_samples s s'"
proof -
  have inv: "1 \<le> sampleSize s" "nonempty_inv s" using reachable_inv [OF assms(1)] by simp_all
  from assms(2) have "step_inv s s'"
  proof cases
    case (step_add wc d bits rnd attrs)
    with inv show ?thesis by (intro add_step_inv) simp_all
  next
    case (step_combine b)
    with inv show ?thesis by (intro combine_step_inv) simp_all
  next
    case step_finalize
    with inv show ?thesis by (simp add: finalize_step_inv)
  qed
  then show ?thesis by (simp add: step_inv_def)
qed

text \<open>
  C10. In every sketch the code can produce by adds, combines and finalizes, a bucket with
  \<^verbatim>\<open>totalCount > 0\<close> has \<^verbatim>\<open>sampleCount > 0\<close>, and no further add, combine or
  finalize empties the sample of a bucket that has one.
\<close>

theorem counted_bucket_has_sample:
  assumes "reachable s"
  shows "(\<forall>b \<in> set (buckets s). 0 < totalCount b \<longrightarrow> 0 < sampleCount b)
       \<and> (\<forall>s'. step s s' \<longrightarrow>
             length (buckets s') = length (buckets s) \<and>
             (\<forall>idx < length (buckets s).
                0 < sampleCount (buckets s ! idx) \<longrightarrow> 0 < sampleCount (buckets s' ! idx)))"
  using reachable_inv [OF assms] step_keeps_samples [OF assms]
  by (simp add: nonempty_inv_def keeps_samples_def)

section \<open>Evaluation of the examples\<close>

lemma hash_values:
  "SKETCH_HASH 0 0 = 148298089"
  "XXH32 1 6 = 120571769"
  "XXH32 1 9 = 380222602"
  "XXH32 1 11 = 1196587888"
  "SKETCH_HASH 2 0 = 527729046"
  "XXH32 2 6 = 537280818"
  "XXH32 3 6 = 672669677"
  "SKETCH_HASH 120571769 SKETCH_SEED = 3493897784"
  "SKETCH_HASH 380222602 SKETCH_SEED = 3379143444"
  "SKETCH_HASH 537280818 SKETCH_SEED = 1190177155"
  "SKETCH_HASH 672669677 SKETCH_SEED = 2933518453"
  "SKETCH_HASH 1196587888 SKETCH_SEED = 3062615343"
  by (simp_all add: SKETCH_HASH_def SKETCH_SEED_def XXH32_def XXH32_avalanche_def XXH_rotl32_def)

lemma replicate_eval: "replicate n x = (if n = 0 then [] else x # replicate (n - 1) x)"
  by (cases n) simp_all

lemma list_update_eval: "(x # xs)[n := y] = (if n = 0 then y # xs else x # xs[n - 1 := y])"
  by (cases n) simp_all

lemma pick_sizes_bits3: "pick_sizes bits3 0 0 = (3, 40)"
  by (simp add: pick_sizes.simps bits3_def)

lemmas add_eval = omnisketch_add_def add_column_def omnisketch_add_hash_def add_hash_row_def
  SKETCH_BUCKET_INDEX_def SKETCH_SIZE_def omnisketch_sample_add_def rescan_max_def rescan_step_def
  hash_values upt_rec replicate_eval list_update_eval numeral_2_eq_2 [symmetric]

lemma ex_A1_eval: "omnisketch_add None 1 1 bits3 6 [Hashed 0] = Inr ex_A1"
  by (simp add: add_eval pick_sizes_bits3 omnisketch_allocate_def empty_bucket_def ex_A1_def)

lemma ex_A2_eval: "omnisketch_add (Some ex_A1) wc d bits rnd [Hashed 0] = Inr ex_A2"
  by (simp add: add_eval ex_A1_def ex_A2_def)

lemmas sort_eval = omnisketch_sorted_items_def item_with_hash_def pg_qsort_def cmp_item_hash_def
  hash_values upt_rec list_update_eval

lemmas finalize_eval = omnisketch_finalize_def finalize_at_def finalize_bucket_def
  SKETCH_BUCKET_INDEX_def SKETCH_SIZE_def sort_eval

lemma ex_A2f_eval: "omnisketch_finalize ex_A2 = ex_A2f"
  by (simp add: finalize_eval ex_A2_def ex_A2f_def)

lemma ex_A3_eval: "omnisketch_add (Some ex_A2f) wc d bits rnd [Hashed 0] = Inr ex_A3"
  by (simp add: add_eval ex_A2f_def ex_A3_def)

lemma ex_A3_finalize: "omnisketch_finalize ex_A3 = ex_A3"
  by (simp add: finalize_eval ex_A3_def)

lemma ex_B1_eval: "omnisketch_add None 1 1 bits3 9 [Hashed 0] = Inr ex_B1"
  by (simp add: add_eval pick_sizes_bits3 omnisketch_allocate_def empty_bucket_def ex_B1_def)

lemma merge_loop_eval:
  "merge_loop sampleSz ds ss dn sn i j k smp mh =
     (if k < sampleSz \<and> (i < dn \<or> j < sn) then
        (if i = dn \<or> (j \<noteq> sn \<and> 0 < cmp_item_hash (ds ! i) (ss ! j)) then
           merge_loop sampleSz ds ss dn sn i (j + 1) (k + 1) (smp[k := item (ss ! j)]) (hash (ss ! j))
         else
           merge_loop sampleSz ds ss dn sn (i + 1) j (k + 1) (smp[k := item (ds ! i)]) (hash (ds ! i)))
      else (k, smp, mh))"
  by (subst merge_loop.simps) auto

lemmas combine_eval = omnisketch_combine_def omnisketch_equals_def omnisketch_copy_def
  combine_loops_def merge_at_def omnisketch_merge_buckets_def merge_loop_eval
  SKETCH_BUCKET_INDEX_def SKETCH_SIZE_def sort_eval

lemma ex_AB_eval: "omnisketch_combine True (Some ex_A1) (Some ex_B1) = Inr (Some ex_AB)"
  by (simp add: combine_eval ex_A1_def ex_B1_def ex_AB_def)

lemma ex_AB3_eval: "omnisketch_add (Some ex_AB) wc d bits rnd [Hashed 0] = Inr ex_AB3"
  by (simp add: add_eval ex_AB_def ex_AB3_def)

lemma ex_AB3_finalize: "omnisketch_finalize ex_AB3 = ex_AB3"
  by (simp add: finalize_eval ex_AB3_def)


lemma ex_D_eval: "omnisketch_add None 1 1 bits3 6 [Dropped, Hashed 0] = Inr ex_D"
  by (simp add: add_eval pick_sizes_bits3 omnisketch_allocate_def empty_bucket_def ex_D_def Let_def)

lemmas estimate_eval = omnisketch_estimate_def estimate_column_def omnisketch_column_estimate_def
  estimate_row_def SKETCH_BUCKET_INDEX_def SKETCH_SIZE_def hash_values upt_rec

lemma ex_A2f_estimate: "omnisketch_estimate (Some ex_A2f) [Hashed 0] = Inr (Some 0)"
  by (simp add: estimate_eval ex_A2f_def)

section \<open>Closed statements about the examples\<close>

text \<open>
  C1. The claim: estimate returns the floor of (largest \<^verbatim>\<open>totalCount\<close> visited, times
  the number of IDs left, divided by the sample size). The code divides first, in
  integers, and multiplies afterwards. On the finalized sketch \<open>ex_A2f\<close> the query
  visits bucket 1, which counts 2 records and stores 2 IDs, with sample size 3: the claim
  gives 1, the code returns 0.
\<close>

theorem estimate_divides_before_multiplying:
  "omnisketch_finalize ex_A2 = ex_A2f
   \<and> omnisketch_estimate (Some ex_A2f) [Hashed 0] = Inr (Some 0)
   \<and> unat (SKETCH_HASH 0 0) mod sketchWidth ex_A2f = 1
   \<and> uint (totalCount (buckets ex_A2f ! 1)) = 2
   \<and> sampleCount (buckets ex_A2f ! 1) = 2
   \<and> sampleSize ex_A2f = 3
   \<and> (2 * 2) div (3 :: int) = 1"
  using ex_A2f_eval ex_A2f_estimate by (simp add: hash_values ex_A2f_def)

text \<open>
  C2. The claim: after any adds and combines followed by finalize, every bucket stores
  its IDs ordered by \<open>(H\<^sub>s, id)\<close>. Combining two one-record sketches marks the
  merged bucket as sorted; a later add appends an ID with a smaller hash and leaves the
  mark, so finalize skips the bucket and the stored IDs stay out of order.
\<close>

theorem add_after_combine_stays_unsorted:
  "omnisketch_add None 1 1 bits3 6 [Hashed 0] = Inr ex_A1
   \<and> omnisketch_add None 1 1 bits3 9 [Hashed 0] = Inr ex_B1
   \<and> omnisketch_combine True (Some ex_A1) (Some ex_B1) = Inr (Some ex_AB)
   \<and> omnisketch_add (Some ex_AB) 1 1 bits3 6 [Hashed 0] = Inr ex_AB3
   \<and> omnisketch_finalize ex_AB3 = ex_AB3
   \<and> take (sampleCount (buckets ex_AB3 ! 1)) (samples ex_AB3 ! 1) = [380222602, 120571769, 672669677]
   \<and> SKETCH_HASH 672669677 SKETCH_SEED < SKETCH_HASH 120571769 SKETCH_SEED"
  using ex_A1_eval ex_B1_eval ex_AB_eval ex_AB3_eval [of 1 1 bits3 6] ex_AB3_finalize
  by (simp add: hash_values ex_AB3_def)

text \<open>
  C6. The claim: every row of every matrix sums to the sketch's count. A record with a
  dropped attribute still has a matrix of its own, and \<^verbatim>\<open>omnisketch_add\<close> counts the
  record but skips the attribute: after one such add the count is 1 and the row of
  matrix 0 sums to 0, so the check \<^verbatim>\<open>AssertCheckSketch\<close> at the end of
  \<^verbatim>\<open>omnisketch_add\<close> does not hold.
\<close>

theorem dropped_attribute_breaks_row_sum:
  "omnisketch_add None 1 1 bits3 6 [Dropped, Hashed 0] = Inr ex_D
   \<and> omnisketch_count ex_D = 1
   \<and> row_total ex_D 0 0 = 0
   \<and> \<not> AssertCheckSketch ex_D"
  using ex_D_eval
  by (simp add: ex_D_def omnisketch_count_def row_total_def AssertCheckSketch_def
      SKETCH_BUCKET_INDEX_def SKETCH_SIZE_def upt_rec)

lemma reachable_ex_A1: "reachable ex_A1"
  using ex_A1_eval by (rule reach_first)

lemma reachable_ex_A2: "reachable ex_A2"
  using reachable_ex_A1 ex_A2_eval [of 1 1 bits3 6] by (rule reach_add)

theorem counted_bucket_has_sample_witness:
  "reachable ex_A1 \<and> step ex_A1 ex_A2
   \<and> 0 < totalCount (buckets ex_A1 ! 1) \<and> 0 < sampleCount (buckets ex_A1 ! 1)
   \<and> 0 < sampleCount (buckets ex_A2 ! 1)"
proof -
  have st: "step ex_A1 ex_A2"
    using ex_A2_eval [of 1 1 bits3 6] by (rule step_add)
  have b: "buckets ex_A1 ! 1 \<in> set (buckets ex_A1)" "0 < totalCount (buckets ex_A1 ! 1)"
    "1 < length (buckets ex_A1)"
    by (simp_all add: ex_A1_def)
  from counted_bucket_has_sample [OF reachable_ex_A1] b st reachable_ex_A1
  show ?thesis by blast
qed

section \<open>The loops over all buckets\<close>

lemma same_header_refl: "same_header s s"
  by (simp add: same_header_def)

lemma same_header_set_cell: "same_header s t \<Longrightarrow> same_header s (set_cell idx c t)"
  by (simp add: same_header_def set_cell_def)

lemma set_cell_lengths:
  "length (buckets (set_cell idx c t)) = length (buckets t)"
  "length (samples (set_cell idx c t)) = length (samples t)"
  by (simp_all add: set_cell_def)

lemma cell_set_cell:
  assumes "idx < length (buckets t)" and "idx < length (samples t)"
  shows "cell (set_cell idx c t) i = (if i = idx then c else cell t i)"
  using assms by (simp add: cell_def set_cell_def)

lemma fold_concat_map: "fold (\<lambda>x. fold h (k x)) xs s = fold h (concat (map k xs)) s"
  by (induction xs arbitrary: s) simp_all

lemma fold_cong_inv:
  assumes "I s"
    and "\<And>x t. I t \<Longrightarrow> f x t = g x t"
    and "\<And>x t. I t \<Longrightarrow> I (g x t)"
  shows "fold f xs s = fold g xs s \<and> I (fold g xs s)"
  using assms(1)
proof (induction xs arbitrary: s)
  case Nil
  then show ?case by simp
next
  case (Cons x xs)
  from Cons.prems have "f x s = g x s" and "I (g x s)" by (simp_all add: assms(2,3))
  with Cons.IH [of "g x s"] show ?case by simp
qed

lemma index_row: "map (\<lambda>j. b + j) [0..<W] = [b..<b + W]"
  using map_add_upt [of b W] by (simp add: add.commute)

lemma index_rows: "concat (map (\<lambda>i. [b + i * W..<b + i * W + W]) [0..<D]) = [b..<b + D * W]"
proof (induction D)
  case 0
  then show ?case by simp
next
  case (Suc D)
  have "[b..<b + D * W + W] = [b..<b + D * W] @ [b + D * W..<b + D * W + W]"
    by (rule upt_add_eq_append) simp
  with Suc show ?case by (simp add: add.assoc add.commute [of W])
qed

lemma index_all:
  "concat (map (\<lambda>a. concat (map (\<lambda>i. map (\<lambda>j. a * (W * D) + i * W + j) [0..<W]) [0..<D])) [0..<C])
     = [0..<C * (W * D)]"
proof -
  have rows: "concat (map (\<lambda>i. map (\<lambda>j. a * (W * D) + i * W + j) [0..<W]) [0..<D])
      = [0 + a * (W * D)..<0 + a * (W * D) + W * D]" for a
  proof -
    have "concat (map (\<lambda>i. map (\<lambda>j. a * (W * D) + i * W + j) [0..<W]) [0..<D])
        = concat (map (\<lambda>i. [a * (W * D) + i * W..<a * (W * D) + i * W + W]) [0..<D])"
      by (simp only: index_row)
    also have "\<dots> = [a * (W * D)..<a * (W * D) + D * W]"
      by (rule index_rows)
    finally show ?thesis by (simp add: mult.commute)
  qed
  show ?thesis
    using index_rows [of 0 "W * D" C] by (simp only: rows) simp
qed

text \<open>
  Three nested loops over matrices, rows and columns whose body rewrites the cell at
  \<^verbatim>\<open>SKETCH_BUCKET_INDEX\<close> visit every bucket index once, in increasing order.
\<close>

lemma nested_loops:
  assumes body: "\<And>a i j t. same_header s t \<Longrightarrow>
      f a i j t = set_cell (a * (W * D) + i * W + j) (g (a * (W * D) + i * W + j) (cell t (a * (W * D) + i * W + j))) t"
  shows "fold (\<lambda>a. fold (\<lambda>i. fold (\<lambda>j. f a i j) [0..<W]) [0..<D]) [0..<C] s
       = cell_loop g [0..<C * (W * D)] s"
proof -
  let ?h = "\<lambda>idx t. set_cell idx (g idx (cell t idx)) t"
  have h_inv: "same_header s (?h idx t)" if "same_header s t" for idx t
    using that by (rule same_header_set_cell)
  have fold_h_inv: "same_header s (fold ?h xs t)" if "same_header s t" for xs t
    using that by (induction xs arbitrary: t) (simp_all add: h_inv)
  have inner: "fold (\<lambda>j. f a i j) [0..<W] t = fold ?h (map (\<lambda>j. a * (W * D) + i * W + j) [0..<W]) t"
    if "same_header s t" for a i t
  proof -
    have "fold (\<lambda>j. f a i j) [0..<W] t = fold (\<lambda>j. ?h (a * (W * D) + i * W + j)) [0..<W] t"
      using fold_cong_inv [where I = "same_header s" and f = "\<lambda>j. f a i j"
          and g = "\<lambda>j. ?h (a * (W * D) + i * W + j)" and s = t and xs = "[0..<W]"] that
      by (simp add: body h_inv)
    then show ?thesis by (simp add: fold_map comp_def)
  qed
  have middle: "fold (\<lambda>i. fold (\<lambda>j. f a i j) [0..<W]) [0..<D] t
      = fold ?h (concat (map (\<lambda>i. map (\<lambda>j. a * (W * D) + i * W + j) [0..<W]) [0..<D])) t"
    if "same_header s t" for a t
  proof -
    have "fold (\<lambda>i. fold (\<lambda>j. f a i j) [0..<W]) [0..<D] t
        = fold (\<lambda>i. fold ?h (map (\<lambda>j. a * (W * D) + i * W + j) [0..<W])) [0..<D] t"
      using fold_cong_inv [where I = "same_header s" and f = "\<lambda>i. fold (\<lambda>j. f a i j) [0..<W]"
          and g = "\<lambda>i. fold ?h (map (\<lambda>j. a * (W * D) + i * W + j) [0..<W])" and s = t and xs = "[0..<D]"] that
      by (simp add: inner fold_h_inv)
    then show ?thesis by (simp add: fold_concat_map)
  qed
  have "fold (\<lambda>a. fold (\<lambda>i. fold (\<lambda>j. f a i j) [0..<W]) [0..<D]) [0..<C] s
      = fold (\<lambda>a. fold ?h (concat (map (\<lambda>i. map (\<lambda>j. a * (W * D) + i * W + j) [0..<W]) [0..<D]))) [0..<C] s"
    using fold_cong_inv [where I = "same_header s" and f = "\<lambda>a. fold (\<lambda>i. fold (\<lambda>j. f a i j) [0..<W]) [0..<D]"
        and g = "\<lambda>a. fold ?h (concat (map (\<lambda>i. map (\<lambda>j. a * (W * D) + i * W + j) [0..<W]) [0..<D]))"
        and s = s and xs = "[0..<C]"]
    by (simp add: middle fold_h_inv same_header_refl)
  then show ?thesis
    by (simp add: fold_concat_map index_all cell_loop_def)
qed

lemma cell_loop_header: "same_header s (cell_loop g idxs s)"
proof -
  have "same_header s (fold (\<lambda>idx t. set_cell idx (g idx (cell t idx)) t) idxs t)"
    if "same_header s t" for t
    using that by (induction idxs arbitrary: t) (simp_all add: same_header_set_cell)
  then show ?thesis by (simp add: cell_loop_def same_header_refl)
qed

lemma cell_loop_lengths:
  "length (buckets (cell_loop g idxs s)) = length (buckets s)"
  "length (samples (cell_loop g idxs s)) = length (samples s)"
  unfolding cell_loop_def
  by (induction idxs arbitrary: s; simp add: set_cell_lengths)+

lemma cell_loop_Suc:
  "cell_loop g [0..<Suc n] s = set_cell n (g n (cell (cell_loop g [0..<n] s) n)) (cell_loop g [0..<n] s)"
  by (simp add: cell_loop_def)

lemma cell_loop_cell:
  assumes "n \<le> length (buckets s)" and "n \<le> length (samples s)"
  shows "cell (cell_loop g [0..<n] s) idx = (if idx < n then g idx (cell s idx) else cell s idx)"
  using assms
proof (induction n arbitrary: idx)
  case 0
  then show ?case by (simp add: cell_loop_def)
next
  case (Suc n)
  then have IH: "cell (cell_loop g [0..<n] s) i = (if i < n then g i (cell s i) else cell s i)" for i
    by simp
  have len: "n < length (buckets (cell_loop g [0..<n] s))" "n < length (samples (cell_loop g [0..<n] s))"
    using Suc.prems by (simp_all add: cell_loop_lengths)
  show ?case
    by (subst cell_loop_Suc) (auto simp add: cell_set_cell [OF len] IH less_Suc_eq)
qed

lemma sketch_eqI:
  assumes "same_header s t" and "length (buckets s) = length (buckets t)"
    and "length (samples s) = length (samples t)"
    and "\<And>idx. idx < length (buckets s) \<Longrightarrow> cell s idx = cell t idx"
    and "length (samples s) = length (buckets s)"
  shows "s = (t :: omnisketch_t)"
proof -
  have "buckets s = buckets t"
    using assms(2,4) by (intro nth_equalityI) (simp_all add: cell_def)
  moreover have "samples s = samples t"
    using assms(3,4,5) by (intro nth_equalityI) (simp_all add: cell_def)
  ultimately show ?thesis
    using assms(1) by (cases s, cases t) (simp add: same_header_def)
qed

lemma finalize_at_cell:
  "finalize_at i j k t =
     set_cell (SKETCH_BUCKET_INDEX t i j k) (finalize_bucket (cell t (SKETCH_BUCKET_INDEX t i j k))) t"
  by (simp add: finalize_at_def set_cell_def cell_def Let_def split_beta)

lemma finalize_as_cell_loop:
  "omnisketch_finalize s = cell_loop (\<lambda>idx. finalize_bucket) [0..<num_buckets s] s"
proof -
  have "omnisketch_finalize s = cell_loop (\<lambda>idx. finalize_bucket)
      [0..<numSketches s * (sketchWidth s * sketchHeight s)] s"
    unfolding omnisketch_finalize_def
    by (rule nested_loops)
      (simp add: finalize_at_cell SKETCH_BUCKET_INDEX_def SKETCH_SIZE_def same_header_def)
  then show ?thesis by (simp add: num_buckets_def SKETCH_SIZE_def)
qed

lemma finalize_cell:
  assumes "shaped s" and "idx < num_buckets s"
  shows "cell (omnisketch_finalize s) idx = finalize_bucket (cell s idx)"
  using assms by (simp add: finalize_as_cell_loop cell_loop_cell shaped_def)

lemma finalize_header: "same_header s (omnisketch_finalize s)"
  by (simp add: finalize_as_cell_loop cell_loop_header)

lemma finalize_shaped: "shaped s \<Longrightarrow> shaped (omnisketch_finalize s)"
  using finalize_header [of s]
  by (simp add: shaped_def finalize_as_cell_loop cell_loop_lengths num_buckets_def SKETCH_SIZE_def same_header_def)

section \<open>Sorting a sample\<close>

lemma item_less_ikey: "item_less x y \<longleftrightarrow> ikey x < ikey y"
  by (auto simp add: item_less_def ikey_def less_prod_def)

lemma inj_ikey: "inj ikey"
  by (rule injI) (auto simp add: ikey_def intro: signed_word_eqI)

lemma cmp_item_hash_le:
  "cmp_item_hash (item_with_hash x) (item_with_hash y) \<le> 0 \<longleftrightarrow> ikey x \<le> ikey y"
  by (auto simp add: cmp_item_hash_def item_with_hash_def ikey_def less_eq_prod_def less_prod_def)

lemma cmp_item_hash_gt:
  "0 < cmp_item_hash (item_with_hash x) (item_with_hash y) \<longleftrightarrow> ikey y < ikey x"
  using cmp_item_hash_le [of x y] by (simp add: not_le [symmetric])

lemma insert_cmp_insort:
  "insert_cmp cmp_item_hash (item_with_hash x) (map item_with_hash ys)
     = map item_with_hash (insort_key ikey x ys)"
  by (induction ys) (simp_all add: cmp_item_hash_le)

lemma pg_qsort_sort_key:
  "pg_qsort cmp_item_hash (map item_with_hash xs) = map item_with_hash (sort_key ikey xs)"
  by (induction xs) (simp_all add: pg_qsort_def insert_cmp_insort)

lemma map_nth_take: "n \<le> length xs \<Longrightarrow> map (\<lambda>k. f (xs ! k)) [0..<n] = map f (take n xs)"
  by (rule nth_equalityI) simp_all

lemma item_of_item_with_hash: "map (item \<circ> item_with_hash) xs = xs"
  by (induction xs) (simp_all add: item_with_hash_def)

lemma sorted_items_eq:
  assumes "sampleCount b \<le> length smp"
  shows "omnisketch_sorted_items b smp =
     map item_with_hash (if isSorted b then take (sampleCount b) smp
                         else sort_key ikey (take (sampleCount b) smp))"
  using assms by (simp add: omnisketch_sorted_items_def Let_def map_nth_take pg_qsort_sort_key)

lemma write_back:
  assumes "n \<le> length xs" and "n \<le> length ys"
  shows "fold (\<lambda>l smp. smp[l := ys ! l]) [0..<n] xs = take n ys @ drop n xs"
  using assms
proof (induction n)
  case 0
  then show ?case by simp
next
  case (Suc n)
  then have "fold (\<lambda>l smp. smp[l := ys ! l]) [0..<Suc n] xs = (take n ys @ drop n xs)[n := ys ! n]"
    by simp
  also have "\<dots> = take n ys @ (drop n xs)[0 := ys ! n]"
    using Suc.prems by (simp add: list_update_append)
  also have "(drop n xs)[0 := ys ! n] = ys ! n # drop (Suc n) xs"
    using Suc.prems by (cases "drop n xs") (simp_all add: drop_Suc drop_tl)
  also have "take n ys @ ys ! n # drop (Suc n) xs = take (Suc n) ys @ drop (Suc n) xs"
    using Suc.prems by (simp add: take_Suc_conv_app_nth)
  finally show ?case .
qed

lemma sorted_wrt_sort_key:
  assumes "distinct xs"
  shows "sorted_wrt item_less (sort_key ikey xs)"
proof -
  have "sorted (map ikey (sort_key ikey xs))" by (rule sorted_sort_key)
  moreover have "distinct (map ikey (sort_key ikey xs))"
    using assms inj_ikey by (simp add: distinct_map inj_on_def inj_def)
  ultimately have "sorted_wrt (<) (map ikey (sort_key ikey xs))"
    by (simp add: strict_sorted_iff)
  then show ?thesis
    by (simp add: sorted_wrt_map item_less_ikey [abs_def])
qed

lemma sorted_wrt_item_less_sorted: "sorted_wrt item_less xs \<Longrightarrow> sorted (map ikey xs)"
  using strict_sorted_iff [of "map ikey xs"]
  by (simp add: sorted_wrt_map item_less_ikey [abs_def])

section \<open>What finalize does to a cell\<close>

lemma finalize_bucket_skip:
  "isSorted (fst c) \<or> sampleCount (fst c) < 2 \<Longrightarrow> finalize_bucket c = c"
  by (auto simp add: finalize_bucket_def Let_def)

lemma finalize_bucket_sorts:
  assumes "\<not> isSorted (fst c)" and "2 \<le> sampleCount (fst c)"
    and "sampleCount (fst c) \<le> length (snd c)"
  shows "finalize_bucket c =
     ((fst c)\<lparr>maxIndex := sampleCount (fst c) - 1, isSorted := True\<rparr>,
      sort_key ikey (stored c) @ drop (sampleCount (fst c)) (snd c))"
proof -
  let ?n = "sampleCount (fst c)"
  let ?its = "omnisketch_sorted_items (fst c) (snd c)"
  have its: "?its = map item_with_hash (sort_key ikey (stored c))"
    using assms by (simp add: sorted_items_eq stored_def)
  have "fold (\<lambda>l smp. smp[l := item (?its ! l)]) [0..<?n] (snd c)
      = fold (\<lambda>l smp. smp[l := map item ?its ! l]) [0..<?n] (snd c)"
    using assms(3) by (intro fold_cong) (simp_all add: its stored_def)
  also have "\<dots> = take ?n (map item ?its) @ drop ?n (snd c)"
    using assms(3) by (intro write_back) (simp_all add: its stored_def)
  also have "take ?n (map item ?its) = sort_key ikey (stored c)"
    using assms(3) by (simp add: its item_of_item_with_hash stored_def)
  finally show ?thesis
    using assms(1,2) by (simp add: finalize_bucket_def Let_def)
qed

lemma finalize_bucket_idem: "finalize_bucket (finalize_bucket c) = finalize_bucket c"
  by (simp add: finalize_bucket_def Let_def)

lemma finalize_bucket_flag:
  "2 \<le> sampleCount (fst (finalize_bucket c)) \<Longrightarrow> isSorted (fst (finalize_bucket c))"
  by (simp add: finalize_bucket_def Let_def split: if_splits)

lemma finalize_bucket_sorted_form:
  assumes "sampleCount (fst c) \<le> length (snd c)" and "distinct (stored c)"
    and "isSorted (fst c) \<longrightarrow> sorted_form c"
    and "2 \<le> sampleCount (fst (finalize_bucket c))"
  shows "sorted_form (finalize_bucket c)"
proof (cases "isSorted (fst c)")
  case True
  with assms(3) show ?thesis by (simp add: finalize_bucket_skip)
next
  case False
  have n: "2 \<le> sampleCount (fst c)" using assms(4) by (simp add: finalize_bucket_counts)
  have "stored (finalize_bucket c) = sort_key ikey (stored c)"
    using assms(1) by (simp add: finalize_bucket_sorts [OF False n assms(1)] stored_def)
  then show ?thesis
    using assms(2) by (simp add: sorted_form_def sorted_wrt_sort_key finalize_bucket_sorts [OF False n assms(1)])
qed

lemma same_header_sym: "same_header s t \<Longrightarrow> same_header t s"
  by (simp add: same_header_def)

lemma finalize_idem:
  assumes "shaped s"
  shows "omnisketch_finalize (omnisketch_finalize s) = omnisketch_finalize s"
proof (rule sketch_eqI)
  let ?t = "omnisketch_finalize s"
  have sh: "shaped ?t" using assms by (rule finalize_shaped)
  have n: "num_buckets ?t = num_buckets s"
    using finalize_header [of s] by (simp add: num_buckets_def SKETCH_SIZE_def same_header_def)
  show "same_header (omnisketch_finalize ?t) ?t"
    using finalize_header [of ?t] by (rule same_header_sym)
  show "length (buckets (omnisketch_finalize ?t)) = length (buckets ?t)"
    "length (samples (omnisketch_finalize ?t)) = length (samples ?t)"
    by (simp_all add: finalize_as_cell_loop cell_loop_lengths)
  show "length (samples (omnisketch_finalize ?t)) = length (buckets (omnisketch_finalize ?t))"
    using finalize_shaped [OF sh] by (simp add: shaped_def)
  show "cell (omnisketch_finalize ?t) idx = cell ?t idx"
    if "idx < length (buckets (omnisketch_finalize ?t))" for idx
  proof -
    have i: "idx < num_buckets ?t"
      using that finalize_shaped [OF sh] finalize_header [of ?t]
      by (simp add: shaped_def num_buckets_def SKETCH_SIZE_def same_header_def)
    then have "idx < num_buckets s" using n by simp
    then show ?thesis
      using i by (simp add: finalize_cell [OF sh] finalize_cell [OF assms] finalize_bucket_idem)
  qed
qed

text \<open>
  C5 (amended). On a sketch whose two arrays have one entry per bucket, finalize leaves
  every cell with fewer than two IDs as it is and marks every cell with at least two IDs
  as sorted; applying it twice equals applying it once. If moreover the stored IDs fit
  their arrays, no cell stores an ID twice and the cells marked sorted before the call
  were in sorted form, then after the call every cell with at least two IDs has its IDs
  strictly increasing under \<open>(H\<^sub>s, id)\<close> and \<^verbatim>\<open>maxIndex = sampleCount - 1\<close>.
\<close>

theorem finalize_sorts_cells_of_two:
  assumes "shaped s"
  shows "(\<forall>idx < num_buckets s.
            (sampleCount (fst (cell s idx)) < 2 \<longrightarrow> cell (omnisketch_finalize s) idx = cell s idx) \<and>
            (2 \<le> sampleCount (fst (cell (omnisketch_finalize s) idx))
               \<longrightarrow> isSorted (fst (cell (omnisketch_finalize s) idx))))
       \<and> omnisketch_finalize (omnisketch_finalize s) = omnisketch_finalize s
       \<and> ((\<forall>idx < num_buckets s.
              sampleCount (fst (cell s idx)) \<le> length (snd (cell s idx)) \<and>
              distinct (stored (cell s idx)) \<and>
              (isSorted (fst (cell s idx)) \<longrightarrow> sorted_form (cell s idx)))
            \<longrightarrow> (\<forall>idx < num_buckets s.
                   2 \<le> sampleCount (fst (cell (omnisketch_finalize s) idx))
                   \<longrightarrow> sorted_form (cell (omnisketch_finalize s) idx)))"
  using assms
  by (simp add: finalize_cell finalize_bucket_skip finalize_bucket_flag finalize_idem
      finalize_bucket_sorted_form)

text \<open>
  C5 as stated fails: finalize leaves a cell with a single ID unmarked. The sketch
  \<open>ex_A1\<close> is the result of the first add; after finalize its bucket 1 holds one ID
  and \<^verbatim>\<open>isSorted\<close> is false.
\<close>

theorem finalize_leaves_single_unmarked:
  "reachable (omnisketch_finalize ex_A1)
   \<and> sampleCount (buckets (omnisketch_finalize ex_A1) ! 1) = 1
   \<and> \<not> isSorted (buckets (omnisketch_finalize ex_A1) ! 1)"
proof -
  have "omnisketch_finalize ex_A1 = ex_A1"
    by (simp add: finalize_eval ex_A1_def)
  then show ?thesis
    using reachable_ex_A1 by (simp add: ex_A1_def)
qed


lemma all_less_two: "(\<forall>idx < (2::nat). P idx) \<longleftrightarrow> P 0 \<and> P 1"
  by (auto simp add: less_2_cases_iff)

theorem finalize_sorts_cells_of_two_witness:
  "shaped ex_A2
   \<and> \<not> isSorted (fst (cell ex_A2 1))
   \<and> isSorted (fst (cell (omnisketch_finalize ex_A2) 1))
   \<and> sorted_form (cell (omnisketch_finalize ex_A2) 1)
   \<and> cell (omnisketch_finalize ex_A2) 0 = cell ex_A2 0
   \<and> omnisketch_finalize (omnisketch_finalize ex_A2) = omnisketch_finalize ex_A2"
proof -
  have sh: "shaped ex_A2" and n: "num_buckets ex_A2 = 2"
    by (simp_all add: shaped_def num_buckets_def SKETCH_SIZE_def ex_A2_def)
  have pre: "\<forall>idx < num_buckets ex_A2.
      sampleCount (fst (cell ex_A2 idx)) \<le> length (snd (cell ex_A2 idx)) \<and>
      distinct (stored (cell ex_A2 idx)) \<and>
      (isSorted (fst (cell ex_A2 idx)) \<longrightarrow> sorted_form (cell ex_A2 idx))"
    by (simp add: n all_less_two) (simp add: cell_def stored_def ex_A2_def)
  have two: "2 \<le> sampleCount (fst (cell (omnisketch_finalize ex_A2) 1))"
    "sampleCount (fst (cell ex_A2 0)) < 2" "\<not> isSorted (fst (cell ex_A2 1))"
    by (simp_all add: ex_A2f_eval) (simp_all add: cell_def ex_A2f_def ex_A2_def)
  from finalize_sorts_cells_of_two [OF sh] pre two sh show ?thesis
    by (simp add: n all_less_two)
qed

section \<open>Merging sorted lists\<close>

lemma merge_ids_Nil2 [simp]: "merge_ids xs [] = xs"
  by (cases xs) simp_all

lemma set_merge_ids: "set (merge_ids xs ys) = set xs \<union> set ys"
  by (induction xs ys rule: merge_ids.induct) auto

lemma length_merge_ids: "length (merge_ids xs ys) = length xs + length ys"
  by (induction xs ys rule: merge_ids.induct) auto

lemma sorted_merge_ids:
  "sorted (map ikey xs) \<Longrightarrow> sorted (map ikey ys) \<Longrightarrow> sorted (map ikey (merge_ids xs ys))"
  by (induction xs ys rule: merge_ids.induct) (auto simp add: set_merge_ids)

lemma distinct_merge_ids:
  "distinct xs \<Longrightarrow> distinct ys \<Longrightarrow> set xs \<inter> set ys = {} \<Longrightarrow> distinct (merge_ids xs ys)"
  by (induction xs ys rule: merge_ids.induct) (auto simp add: set_merge_ids)

lemma sorted_key_unique:
  assumes "sorted (map ikey xs)" and "sorted (map ikey ys)"
    and "distinct xs" and "distinct ys" and "set xs = set ys"
  shows "xs = ys"
proof -
  have "distinct (map ikey xs)" "distinct (map ikey ys)"
    using assms(3,4) inj_ikey by (simp_all add: distinct_map inj_on_def inj_def)
  moreover have "set (map ikey xs) = set (map ikey ys)" using assms(5) by simp
  ultimately have "map ikey xs = map ikey ys"
    using assms(1,2) by (intro sorted_distinct_set_unique)
  then show ?thesis using inj_ikey by (simp add: inj_map_eq_map)
qed

lemma sort_key_unique:
  assumes "distinct xs" and "distinct ys" and "set xs = set ys"
  shows "sort_key ikey xs = sort_key ikey ys"
  using assms by (intro sorted_key_unique) simp_all

lemma merge_ids_sort:
  assumes "distinct xs" and "distinct ys" and "set xs \<inter> set ys = {}"
  shows "merge_ids (sort_key ikey xs) (sort_key ikey ys) = sort_key ikey (xs @ ys)"
  using assms
  by (intro sorted_key_unique sorted_merge_ids distinct_merge_ids)
    (simp_all add: set_merge_ids)

lemma take_merge_ids:
  "n \<le> m \<Longrightarrow> n \<le> m' \<Longrightarrow>
   take n (merge_ids (take m xs) (take m' ys)) = take n (merge_ids xs ys)"
proof (induction xs ys arbitrary: n m m' rule: merge_ids.induct)
  case (1 ys)
  then show ?case by (simp add: min_absorb1)
next
  case (2 v va)
  then show ?case by (simp add: min_absorb1)
next
  case (3 x xs y ys)
  show ?case
  proof (cases n)
    case 0
    then show ?thesis by simp
  next
    case (Suc n')
    with "3.prems" obtain m1 m1' where m: "m = Suc m1" "m' = Suc m1'"
      by (metis Suc_le_D)
    show ?thesis
    proof (cases "ikey y < ikey x")
      case True
      have "take n' (merge_ids (take m (x # xs)) (take m1' ys)) = take n' (merge_ids (x # xs) ys)"
        using "3.prems" Suc m by (intro "3.IH"(1) True) simp_all
      with True Suc m show ?thesis by simp
    next
      case False
      have "take n' (merge_ids (take m1 xs) (take m' (y # ys))) = take n' (merge_ids xs (y # ys))"
        using "3.prems" Suc m by (intro "3.IH"(2) False) simp_all
      with False Suc m show ?thesis by simp
    qed
  qed
qed

lemma take_merge_ids_left:
  assumes "n \<le> m"
  shows "take n (merge_ids (take m xs) ys) = take n (merge_ids xs ys)"
  using take_merge_ids [of n m "max n (length ys)" xs ys] assms by simp

lemma take_merge_ids_right:
  assumes "n \<le> m"
  shows "take n (merge_ids xs (take m ys)) = take n (merge_ids xs ys)"
  using take_merge_ids [of n "max n (length xs)" m xs ys] assms by simp

lemma sorted_take_key: "sorted (map ikey xs) \<Longrightarrow> sorted (map ikey (take n xs))"
  by (simp add: take_map [symmetric] sorted_wrt_take)

text \<open>
  Keeping the \<open>n\<close> smallest of two merged lists and merging a third gives the \<open>n\<close>
  smallest of all three, in whatever order the lists are combined.
\<close>

lemma bottom_three:
  assumes d: "distinct (xs @ ys @ zs)"
  shows "take n (merge_ids (take n (merge_ids (sort_key ikey xs) (sort_key ikey ys))) (sort_key ikey zs))
       = take n (sort_key ikey (xs @ ys @ zs))"
proof -
  have m1: "merge_ids (sort_key ikey xs) (sort_key ikey ys) = sort_key ikey (xs @ ys)"
    using d by (intro merge_ids_sort) auto
  have m2: "merge_ids (sort_key ikey (xs @ ys)) (sort_key ikey zs) = sort_key ikey ((xs @ ys) @ zs)"
    using d by (intro merge_ids_sort) auto
  have "take n (merge_ids (take n (merge_ids (sort_key ikey xs) (sort_key ikey ys))) (sort_key ikey zs))
      = take n (merge_ids (merge_ids (sort_key ikey xs) (sort_key ikey ys)) (sort_key ikey zs))"
    by (rule take_merge_ids_left) simp
  then show ?thesis by (simp add: m1 m2)
qed

section \<open>The merge loop\<close>

lemma merge_items_cmp:
  "0 < cmp_item_hash (map item_with_hash xs ! i) (map item_with_hash ys ! j) \<longleftrightarrow> ikey (ys ! j) < ikey (xs ! i)"
  if "i < length xs" "j < length ys"
  using that by (simp add: cmp_item_hash_gt)

lemma take_Suc_update: "k < length smp \<Longrightarrow> take (Suc k) (smp[k := y]) = take k smp @ [y]"
  by (simp add: take_Suc_conv_app_nth)

text \<open>
  From the loop state \<open>(i, j, k)\<close> the loop appends to the first \<open>k\<close> slots the merge
  of the remaining IDs, cut at the sample size; \<^verbatim>\<open>maxHash\<close> ends as the hash of the last
  ID written.
\<close>

lemma merge_loop_spec:
  assumes "i \<le> length xs" and "j \<le> length ys" and "sampleSz \<le> length smp"
  shows "merge_loop sampleSz (map item_with_hash xs) (map item_with_hash ys) (length xs) (length ys) i j k smp mh =
     (let r = take (sampleSz - k) (merge_ids (drop i xs) (drop j ys))
      in (k + length r, take k smp @ r @ drop (k + length r) smp,
          if r = [] then mh else SKETCH_HASH (last r) SKETCH_SEED))"
  using assms
proof (induction "(length xs - i) + (length ys - j)" arbitrary: i j k smp mh)
  case 0
  then have "i = length xs" "j = length ys" by simp_all
  then show ?case by (simp add: merge_loop_stop)
next
  case (Suc n)
  let ?ds = "map item_with_hash xs" and ?ss = "map item_with_hash ys"
  show ?case
  proof (cases rule: merge_loop_cases [where k = k and sampleSz = sampleSz and i = i
        and dn = "length xs" and j = j and sn = "length ys" and ds = ?ds and ss = ?ss])
    case stop
    then have "sampleSz - k = 0 \<or> (drop i xs = [] \<and> drop j ys = [])" by auto
    then have r: "take (sampleSz - k) (merge_ids (drop i xs) (drop j ys)) = []" by auto
    show ?thesis by (simp only: merge_loop_stop [OF stop] Let_def r) simp
  next
    case src
    then have j: "j < length ys" using Suc.prems by auto
    have k: "k < length smp" using src Suc.prems by simp
    have dj: "drop j ys = ys ! j # drop (Suc j) ys" using j by (simp add: Cons_nth_drop_Suc)
    have m: "merge_ids (drop i xs) (drop j ys) = ys ! j # merge_ids (drop i xs) (drop (Suc j) ys)"
    proof (cases "i = length xs")
      case True
      then show ?thesis by (simp add: dj)
    next
      case False
      then have i: "i < length xs" using Suc.prems by simp
      then have "ikey (ys ! j) < ikey (xs ! i)" using src False j by (simp add: cmp_item_hash_gt)
      moreover have "drop i xs = xs ! i # drop (Suc i) xs" using i by (simp add: Cons_nth_drop_Suc)
      ultimately show ?thesis by (simp add: dj)
    qed
    have n: "n = (length xs - i) + (length ys - Suc j)" using Suc.hyps(2) j by simp
    have IH: "merge_loop sampleSz ?ds ?ss (length xs) (length ys) i (Suc j) (Suc k)
        (smp[k := ys ! j]) (SKETCH_HASH (ys ! j) SKETCH_SEED) =
      (let r = take (sampleSz - Suc k) (merge_ids (drop i xs) (drop (Suc j) ys))
       in (Suc k + length r, take (Suc k) (smp[k := ys ! j]) @ r @ drop (Suc k + length r) (smp[k := ys ! j]),
           if r = [] then SKETCH_HASH (ys ! j) SKETCH_SEED else SKETCH_HASH (last r) SKETCH_SEED))"
      using Suc.prems j by (intro Suc.hyps(1) [OF n]) simp_all
    have step: "merge_loop sampleSz ?ds ?ss (length xs) (length ys) i j k smp mh =
        merge_loop sampleSz ?ds ?ss (length xs) (length ys) i (Suc j) (Suc k)
          (smp[k := ys ! j]) (SKETCH_HASH (ys ! j) SKETCH_SEED)"
      using src j by (simp add: merge_loop_src item_with_hash_def)
    have tk: "take (sampleSz - k) (ys ! j # merge_ids (drop i xs) (drop (Suc j) ys))
        = ys ! j # take (sampleSz - Suc k) (merge_ids (drop i xs) (drop (Suc j) ys))"
    proof -
      have "sampleSz - k = Suc (sampleSz - Suc k)" using src(1) by simp
      then show ?thesis by simp
    qed
    show ?thesis
      by (simp add: step IH m tk Let_def take_Suc_update [OF k])
  next
    case dst
    then have i: "i < length xs" using Suc.prems by auto
    have k: "k < length smp" using dst Suc.prems by simp
    have di: "drop i xs = xs ! i # drop (Suc i) xs" using i by (simp add: Cons_nth_drop_Suc)
    have m: "merge_ids (drop i xs) (drop j ys) = xs ! i # merge_ids (drop (Suc i) xs) (drop j ys)"
    proof (cases "j = length ys")
      case True
      then show ?thesis by (simp add: di)
    next
      case False
      then have j: "j < length ys" using Suc.prems by simp
      then have "\<not> ikey (ys ! j) < ikey (xs ! i)" using dst False i by (simp add: cmp_item_hash_gt)
      moreover have "drop j ys = ys ! j # drop (Suc j) ys" using j by (simp add: Cons_nth_drop_Suc)
      ultimately show ?thesis by (simp add: di)
    qed
    have n: "n = (length xs - Suc i) + (length ys - j)" using Suc.hyps(2) i by simp
    have IH: "merge_loop sampleSz ?ds ?ss (length xs) (length ys) (Suc i) j (Suc k)
        (smp[k := xs ! i]) (SKETCH_HASH (xs ! i) SKETCH_SEED) =
      (let r = take (sampleSz - Suc k) (merge_ids (drop (Suc i) xs) (drop j ys))
       in (Suc k + length r, take (Suc k) (smp[k := xs ! i]) @ r @ drop (Suc k + length r) (smp[k := xs ! i]),
           if r = [] then SKETCH_HASH (xs ! i) SKETCH_SEED else SKETCH_HASH (last r) SKETCH_SEED))"
      using Suc.prems i by (intro Suc.hyps(1) [OF n]) simp_all
    have step: "merge_loop sampleSz ?ds ?ss (length xs) (length ys) i j k smp mh =
        merge_loop sampleSz ?ds ?ss (length xs) (length ys) (Suc i) j (Suc k)
          (smp[k := xs ! i]) (SKETCH_HASH (xs ! i) SKETCH_SEED)"
      using dst i by (simp add: merge_loop_dst item_with_hash_def)
    have tk: "take (sampleSz - k) (xs ! i # merge_ids (drop (Suc i) xs) (drop j ys))
        = xs ! i # take (sampleSz - Suc k) (merge_ids (drop (Suc i) xs) (drop j ys))"
    proof -
      have "sampleSz - k = Suc (sampleSz - Suc k)" using dst(1) by simp
      then show ?thesis by simp
    qed
    show ?thesis
      by (simp add: step IH m tk Let_def take_Suc_update [OF k])
  qed
qed


section \<open>Merging two cells\<close>

lemma cell_ok_length: "cell_ok B c \<Longrightarrow> sampleCount (fst c) \<le> length (snd c)"
  by (simp add: cell_ok_def)

lemma length_stored: "cell_ok B c \<Longrightarrow> length (stored c) = sampleCount (fst c)"
  by (simp add: cell_ok_def stored_def)

lemma length_sorted_ids: "cell_ok B c \<Longrightarrow> length (sorted_ids c) = sampleCount (fst c)"
  by (simp add: sorted_ids_def length_stored)

lemma set_sorted_ids: "set (sorted_ids c) = set (stored c)"
  by (simp add: sorted_ids_def)

lemma distinct_sorted_ids: "cell_ok B c \<Longrightarrow> distinct (sorted_ids c)"
  by (simp add: sorted_ids_def cell_ok_def)

lemma sorted_sorted_ids: "sorted (map ikey (sorted_ids c))"
  by (simp add: sorted_ids_def)

lemma sorted_ids_of_sorted:
  assumes "cell_ok B c" and "isSorted (fst c)"
  shows "sorted_ids c = stored c"
proof -
  have "sorted_wrt item_less (stored c)" using assms by (simp add: cell_ok_def sorted_form_def)
  then show ?thesis
    by (simp add: sorted_ids_def sort_key_id_if_sorted sorted_wrt_item_less_sorted)
qed

lemma sorted_items_ok:
  assumes "cell_ok B c"
  shows "omnisketch_sorted_items (fst c) (snd c) = map item_with_hash (sorted_ids c)"
proof (cases "isSorted (fst c)")
  case True
  then show ?thesis
    using sorted_ids_of_sorted [OF assms True] cell_ok_length [OF assms]
    by (simp add: sorted_items_eq stored_def)
next
  case False
  then show ?thesis
    using cell_ok_length [OF assms] by (simp add: sorted_items_eq stored_def sorted_ids_def)
qed

lemma sorted_last_max:
  assumes "sorted (map ikey xs)" and "x \<in> set xs"
  shows "SKETCH_HASH x SKETCH_SEED \<le> SKETCH_HASH (last xs) SKETCH_SEED"
proof -
  from assms(2) obtain i where i: "i < length xs" "xs ! i = x" by (auto simp add: in_set_conv_nth)
  then have ne: "xs \<noteq> []" by auto
  have "map ikey xs ! i \<le> map ikey xs ! (length xs - 1)"
    using assms(1) i by (intro sorted_nth_mono) simp_all
  then have "ikey x \<le> ikey (last xs)"
    using i ne by (simp add: last_conv_nth)
  then show ?thesis by (auto simp add: ikey_def less_eq_prod_def)
qed

text \<open>The merged cell when the source stores at least one ID.\<close>

lemma merge_buckets_result:
  assumes d: "cell_ok B d" and s: "cell_ok B s" and pos: "0 < sampleCount (fst s)"
  defines "r \<equiv> take B (merge_ids (sorted_ids d) (sorted_ids s))"
  shows "omnisketch_merge_buckets B d s =
       ((fst d)\<lparr>maxHash := SKETCH_HASH (last r) SKETCH_SEED,
                totalCount := totalCount (fst d) + totalCount (fst s),
                isSorted := True, sampleCount := length r, maxIndex := length r - 1\<rparr>,
        r @ replicate (B - length r) 0)"
    and "r \<noteq> []" and "sampleCount (fst d) \<le> length r"
proof -
  have B: "0 < B" using s pos by (simp add: cell_ok_def)
  have len: "length r = min B (sampleCount (fst d) + sampleCount (fst s))"
    by (simp add: r_def length_merge_ids length_sorted_ids [OF d] length_sorted_ids [OF s] min.commute)
  show ne: "r \<noteq> []" using len B pos by (cases r) simp_all
  show ge: "sampleCount (fst d) \<le> length r"
    using len d by (simp add: cell_ok_def)
  have loop: "merge_loop B (map item_with_hash (sorted_ids d)) (map item_with_hash (sorted_ids s))
      (length (sorted_ids d)) (length (sorted_ids s)) 0 0 0 (snd d) (maxHash (fst d)) =
      (length r, r @ drop (length r) (snd d), SKETCH_HASH (last r) SKETCH_SEED)"
    using d ne by (subst merge_loop_spec) (simp_all add: cell_ok_def r_def Let_def)
  have "drop (length r) (snd d) = drop (length r - sampleCount (fst d)) (drop (sampleCount (fst d)) (snd d))"
    using ge by simp
  also have "\<dots> = replicate (B - length r) 0"
    using d ge by (simp add: cell_ok_def)
  finally have pad: "drop (length r) (snd d) = replicate (B - length r) 0" .
  show "omnisketch_merge_buckets B d s =
       ((fst d)\<lparr>maxHash := SKETCH_HASH (last r) SKETCH_SEED,
                totalCount := totalCount (fst d) + totalCount (fst s),
                isSorted := True, sampleCount := length r, maxIndex := length r - 1\<rparr>,
        r @ replicate (B - length r) 0)"
    using pos ne loop
    by (simp add: omnisketch_merge_buckets_def Let_def sorted_items_ok [OF d] sorted_items_ok [OF s]
        length_sorted_ids [OF d, symmetric] length_sorted_ids [OF s, symmetric] pad)
qed


lemma strictly_sorted_ids:
  assumes "sorted (map ikey xs)" and "distinct xs"
  shows "sorted_wrt item_less xs"
proof -
  have "distinct (map ikey xs)"
    using assms(2) inj_ikey by (simp add: distinct_map inj_on_def inj_def)
  with assms(1) have "sorted_wrt (<) (map ikey xs)" by (simp add: strict_sorted_iff)
  then show ?thesis by (simp add: sorted_wrt_map item_less_ikey [abs_def])
qed

lemma merge_buckets_no_source:
  assumes d: "cell_ok B d" and s: "cell_ok B s" and zero: "sampleCount (fst s) = 0"
  shows "omnisketch_merge_buckets B d s = d"
    and "take B (merge_ids (sorted_ids d) (sorted_ids s)) = sorted_ids d"
    and "totalCount (fst d) + totalCount (fst s) = totalCount (fst d)"
proof -
  show "omnisketch_merge_buckets B d s = d" using zero by (rule merge_buckets_empty_src)
  have "sorted_ids s = []" using zero by (simp add: sorted_ids_def stored_def)
  moreover have "length (sorted_ids d) \<le> B"
    using d length_sorted_ids [OF d] by (simp add: cell_ok_def)
  ultimately show "take B (merge_ids (sorted_ids d) (sorted_ids s)) = sorted_ids d" by simp
  show "totalCount (fst d) + totalCount (fst s) = totalCount (fst d)"
    using s zero by (simp add: cell_ok_def)
qed

lemma merge_buckets_sound:
  assumes d: "cell_ok B d" and s: "cell_ok B s"
    and dis: "set (stored d) \<inter> set (stored s) = {}"
  shows "cell_ok B (omnisketch_merge_buckets B d s)"
    and "sorted_ids (omnisketch_merge_buckets B d s) = take B (merge_ids (sorted_ids d) (sorted_ids s))"
    and "totalCount (fst (omnisketch_merge_buckets B d s)) = totalCount (fst d) + totalCount (fst s)"
    and "set (stored (omnisketch_merge_buckets B d s)) \<subseteq> set (stored d) \<union> set (stored s)"
proof -
  let ?m = "omnisketch_merge_buckets B d s"
  define r where "r = take B (merge_ids (sorted_ids d) (sorted_ids s))"
  have srt: "sorted (map ikey r)"
    unfolding r_def by (intro sorted_take_key sorted_merge_ids sorted_sorted_ids)
  have dst: "distinct r"
    unfolding r_def using dis
    by (intro distinct_take distinct_merge_ids distinct_sorted_ids [OF d] distinct_sorted_ids [OF s])
      (simp add: set_sorted_ids)
  have sub: "set r \<subseteq> set (stored d) \<union> set (stored s)"
    unfolding r_def using set_take_subset [of B "merge_ids (sorted_ids d) (sorted_ids s)"]
    by (simp add: set_merge_ids set_sorted_ids)
  have "cell_ok B ?m \<and> sorted_ids ?m = take B (merge_ids (sorted_ids d) (sorted_ids s))
      \<and> totalCount (fst ?m) = totalCount (fst d) + totalCount (fst s)
      \<and> set (stored ?m) \<subseteq> set (stored d) \<union> set (stored s)"
  proof (cases "sampleCount (fst s) = 0")
    case True
    note n = merge_buckets_no_source [OF d s True]
    show ?thesis using d by (simp add: n)
  next
    case False
    then have pos: "0 < sampleCount (fst s)" by simp
    note res = merge_buckets_result [OF d s pos, folded r_def]
    have st: "stored ?m = r" by (simp add: res(1) stored_def)
    have ne: "r \<noteq> []" by (rule res(2))
    then have len: "0 < length r" by simp
    have lenB: "length r \<le> B" by (simp add: r_def)
    have "sorted_ids ?m = r"
      by (simp add: sorted_ids_def st sort_key_id_if_sorted srt)
    moreover have "totalCount (fst ?m) = totalCount (fst d) + totalCount (fst s)"
      by (simp add: res(1))
    moreover have "cell_ok B ?m"
      unfolding cell_ok_def st
    proof (intro conjI impI)
      show "sampleCount (fst ?m) \<le> B" using lenB by (simp add: res(1))
      show "length (snd ?m) = B" using lenB by (simp add: res(1))
      show "drop (sampleCount (fst ?m)) (snd ?m) = replicate (B - sampleCount (fst ?m)) 0"
        by (simp add: res(1))
      show "distinct r" by (rule dst)
      show "sorted_form ?m"
        by (simp add: sorted_form_def st strictly_sorted_ids [OF srt dst]) (simp add: res(1))
      show "maxIndex (fst ?m) < sampleCount (fst ?m)" using len by (simp add: res(1))
      show "maxHash (fst ?m) = SKETCH_HASH (snd ?m ! maxIndex (fst ?m)) SKETCH_SEED"
        using len ne by (simp add: res(1) nth_append last_conv_nth)
      show "\<forall>x\<in>set r. SKETCH_HASH x SKETCH_SEED \<le> maxHash (fst ?m)"
        using sorted_last_max [OF srt] by (simp add: res(1))
      show "totalCount (fst ?m) = 0" if "sampleCount (fst ?m) = 0"
        using that len by (simp add: res(1))
      show "maxIndex (fst ?m) = 0" if "sampleCount (fst ?m) = 0"
        using that len by (simp add: res(1))
      show "maxHash (fst ?m) = 0" if "sampleCount (fst ?m) = 0"
        using that len by (simp add: res(1))
    qed
    ultimately show ?thesis using sub by (simp add: st r_def)
  qed
  then show "cell_ok B ?m"
    and "sorted_ids ?m = take B (merge_ids (sorted_ids d) (sorted_ids s))"
    and "totalCount (fst ?m) = totalCount (fst d) + totalCount (fst s)"
    and "set (stored ?m) \<subseteq> set (stored d) \<union> set (stored s)"
    by simp_all
qed

section \<open>The finalized cell\<close>

lemma max_hash_is_last:
  assumes c: "cell_ok B c" and pos: "0 < sampleCount (fst c)"
  shows "maxHash (fst c) = SKETCH_HASH (last (sorted_ids c)) SKETCH_SEED"
proof -
  have len: "length (sorted_ids c) = sampleCount (fst c)" using c by (rule length_sorted_ids)
  then have ne: "sorted_ids c \<noteq> []" using pos by auto
  have mi: "maxIndex (fst c) < sampleCount (fst c)"
    and mh: "maxHash (fst c) = SKETCH_HASH (snd c ! maxIndex (fst c)) SKETCH_SEED"
    and bound: "\<forall>x \<in> set (stored c). SKETCH_HASH x SKETCH_SEED \<le> maxHash (fst c)"
    using c pos unfolding cell_ok_def by blast+
  have "snd c ! maxIndex (fst c) = stored c ! maxIndex (fst c)"
    using mi by (simp add: stored_def)
  moreover have "stored c ! maxIndex (fst c) \<in> set (stored c)"
    using mi length_stored [OF c] by simp
  ultimately have "snd c ! maxIndex (fst c) \<in> set (sorted_ids c)"
    by (simp add: set_sorted_ids)
  then have "maxHash (fst c) \<le> SKETCH_HASH (last (sorted_ids c)) SKETCH_SEED"
    unfolding mh by (intro sorted_last_max sorted_sorted_ids)
  moreover have "last (sorted_ids c) \<in> set (stored c)"
    using ne last_in_set [of "sorted_ids c"] by (simp add: set_sorted_ids)
  then have "SKETCH_HASH (last (sorted_ids c)) SKETCH_SEED \<le> maxHash (fst c)"
    using bound by simp
  ultimately show ?thesis by simp
qed

lemma split_sample:
  assumes "cell_ok B c"
  shows "snd c = stored c @ replicate (B - sampleCount (fst c)) 0"
proof -
  have dr: "drop (sampleCount (fst c)) (snd c) = replicate (B - sampleCount (fst c)) 0"
    using assms by (simp add: cell_ok_def)
  show ?thesis unfolding stored_def dr [symmetric] by simp
qed

lemma single_sorted_ids:
  assumes "cell_ok B c" and "sampleCount (fst c) < 2"
  shows "sorted_ids c = stored c"
proof -
  have "length (stored c) < 2" using assms by (simp add: length_stored)
  then have "sorted (map ikey (stored c))"
    by (cases "stored c" rule: list.exhaust; cases "tl (stored c)") auto
  then show ?thesis by (simp add: sorted_ids_def sort_key_id_if_sorted)
qed

text \<open>
  After finalize, everything in a cell but the flag of a cell with fewer than two IDs is
  a function of its count and of its stored IDs in sorted order.
\<close>

lemma finalize_bucket_canon:
  assumes c: "cell_ok B c"
  shows "totalCount (fst (finalize_bucket c)) = totalCount (fst c)"
    and "sampleCount (fst (finalize_bucket c)) = length (sorted_ids c)"
    and "snd (finalize_bucket c) = sorted_ids c @ replicate (B - length (sorted_ids c)) 0"
    and "maxIndex (fst (finalize_bucket c)) = length (sorted_ids c) - 1"
    and "maxHash (fst (finalize_bucket c)) =
          (if sorted_ids c = [] then 0 else SKETCH_HASH (last (sorted_ids c)) SKETCH_SEED)"
    and "2 \<le> length (sorted_ids c) \<Longrightarrow> isSorted (fst (finalize_bucket c))"
proof -
  let ?n = "sampleCount (fst c)"
  have len: "length (sorted_ids c) = ?n" using c by (rule length_sorted_ids)
  have mh: "maxHash (fst c) = (if sorted_ids c = [] then 0 else SKETCH_HASH (last (sorted_ids c)) SKETCH_SEED)"
  proof (cases "?n = 0")
    case True
    then show ?thesis using c len by (simp add: cell_ok_def)
  next
    case False
    then have "sorted_ids c \<noteq> []" using len by auto
    then show ?thesis using max_hash_is_last [OF c] False by simp
  qed
  show "totalCount (fst (finalize_bucket c)) = totalCount (fst c)"
    by (rule finalize_bucket_counts)
  show "sampleCount (fst (finalize_bucket c)) = length (sorted_ids c)"
    by (simp add: finalize_bucket_counts len)
  show "2 \<le> length (sorted_ids c) \<Longrightarrow> isSorted (fst (finalize_bucket c))"
    by (simp add: finalize_bucket_flag finalize_bucket_counts len)
  have "snd (finalize_bucket c) = sorted_ids c @ replicate (B - length (sorted_ids c)) 0
      \<and> maxIndex (fst (finalize_bucket c)) = length (sorted_ids c) - 1
      \<and> maxHash (fst (finalize_bucket c)) = maxHash (fst c)"
  proof (cases "isSorted (fst c) \<or> ?n < 2")
    case skip: True
    have ids: "sorted_ids c = stored c"
      using skip sorted_ids_of_sorted [OF c] single_sorted_ids [OF c] by blast
    have "maxIndex (fst c) = ?n - 1"
    proof (cases "isSorted (fst c)")
      case True
      then show ?thesis using c by (simp add: cell_ok_def sorted_form_def)
    next
      case False
      with skip have "?n < 2" by simp
      then show ?thesis using c by (cases "?n = 0") (simp_all add: cell_ok_def)
    qed
    then show ?thesis
      using split_sample [OF c] by (simp add: finalize_bucket_skip [OF skip] ids len [symmetric])
  next
    case False
    then have ns: "\<not> isSorted (fst c)" and two: "2 \<le> ?n" by simp_all
    show ?thesis
      using c by (simp add: finalize_bucket_sorts [OF ns two cell_ok_length [OF c]]
          sorted_ids_def [symmetric] len cell_ok_def)
  qed
  then show "snd (finalize_bucket c) = sorted_ids c @ replicate (B - length (sorted_ids c)) 0"
    and "maxIndex (fst (finalize_bucket c)) = length (sorted_ids c) - 1"
    and "maxHash (fst (finalize_bucket c)) =
          (if sorted_ids c = [] then 0 else SKETCH_HASH (last (sorted_ids c)) SKETCH_SEED)"
    using mh by simp_all
qed

section \<open>Three cells merged in any order\<close>

lemma bottom_three_right:
  assumes d: "distinct (xs @ ys @ zs)"
  shows "take n (merge_ids (sort_key ikey xs) (take n (merge_ids (sort_key ikey ys) (sort_key ikey zs))))
       = take n (sort_key ikey (xs @ ys @ zs))"
proof -
  have m1: "merge_ids (sort_key ikey ys) (sort_key ikey zs) = sort_key ikey (ys @ zs)"
    using d by (intro merge_ids_sort) auto
  have m2: "merge_ids (sort_key ikey xs) (sort_key ikey (ys @ zs)) = sort_key ikey (xs @ ys @ zs)"
    using d by (intro merge_ids_sort) auto
  have "take n (merge_ids (sort_key ikey xs) (take n (merge_ids (sort_key ikey ys) (sort_key ikey zs))))
      = take n (merge_ids (sort_key ikey xs) (merge_ids (sort_key ikey ys) (sort_key ikey zs)))"
    by (rule take_merge_ids_right) simp
  then show ?thesis by (simp add: m1 m2)
qed

lemma cell_ok_distinct: "cell_ok B c \<Longrightarrow> distinct (stored c)"
  by (simp add: cell_ok_def)

lemma merge_left:
  assumes a: "cell_ok B a" and b: "cell_ok B b" and c: "cell_ok B c"
    and ab: "set (stored a) \<inter> set (stored b) = {}"
    and ac: "set (stored a) \<inter> set (stored c) = {}"
    and bc: "set (stored b) \<inter> set (stored c) = {}"
  shows "cell_ok B (omnisketch_merge_buckets B (omnisketch_merge_buckets B a b) c)"
    and "sorted_ids (omnisketch_merge_buckets B (omnisketch_merge_buckets B a b) c)
          = take B (sort_key ikey (stored a @ stored b @ stored c))"
    and "totalCount (fst (omnisketch_merge_buckets B (omnisketch_merge_buckets B a b) c))
          = totalCount (fst a) + totalCount (fst b) + totalCount (fst c)"
proof -
  note m = merge_buckets_sound [OF a b ab]
  have dis: "set (stored (omnisketch_merge_buckets B a b)) \<inter> set (stored c) = {}"
    using m(4) ac bc by blast
  note n = merge_buckets_sound [OF m(1) c dis]
  have d: "distinct (stored a @ stored b @ stored c)"
    using cell_ok_distinct [OF a] cell_ok_distinct [OF b] cell_ok_distinct [OF c] ab ac bc
    by auto
  show "cell_ok B (omnisketch_merge_buckets B (omnisketch_merge_buckets B a b) c)" by (rule n(1))
  show "sorted_ids (omnisketch_merge_buckets B (omnisketch_merge_buckets B a b) c)
      = take B (sort_key ikey (stored a @ stored b @ stored c))"
  proof -
    have "sorted_ids (omnisketch_merge_buckets B (omnisketch_merge_buckets B a b) c)
        = take B (merge_ids (take B (merge_ids (sorted_ids a) (sorted_ids b))) (sorted_ids c))"
      by (simp only: n(2) m(2))
    also have "\<dots> = take B (sort_key ikey (stored a @ stored b @ stored c))"
      unfolding sorted_ids_def by (rule bottom_three [OF d])
    finally show ?thesis .
  qed
  show "totalCount (fst (omnisketch_merge_buckets B (omnisketch_merge_buckets B a b) c))
      = totalCount (fst a) + totalCount (fst b) + totalCount (fst c)"
    by (simp add: n(3) m(3))
qed

lemma merge_right:
  assumes a: "cell_ok B a" and b: "cell_ok B b" and c: "cell_ok B c"
    and ab: "set (stored a) \<inter> set (stored b) = {}"
    and ac: "set (stored a) \<inter> set (stored c) = {}"
    and bc: "set (stored b) \<inter> set (stored c) = {}"
  shows "cell_ok B (omnisketch_merge_buckets B a (omnisketch_merge_buckets B b c))"
    and "sorted_ids (omnisketch_merge_buckets B a (omnisketch_merge_buckets B b c))
          = take B (sort_key ikey (stored a @ stored b @ stored c))"
    and "totalCount (fst (omnisketch_merge_buckets B a (omnisketch_merge_buckets B b c)))
          = totalCount (fst a) + totalCount (fst b) + totalCount (fst c)"
proof -
  note m = merge_buckets_sound [OF b c bc]
  have dis: "set (stored a) \<inter> set (stored (omnisketch_merge_buckets B b c)) = {}"
    using m(4) ab ac by blast
  note n = merge_buckets_sound [OF a m(1) dis]
  have d: "distinct (stored a @ stored b @ stored c)"
    using cell_ok_distinct [OF a] cell_ok_distinct [OF b] cell_ok_distinct [OF c] ab ac bc
    by auto
  show "cell_ok B (omnisketch_merge_buckets B a (omnisketch_merge_buckets B b c))" by (rule n(1))
  show "sorted_ids (omnisketch_merge_buckets B a (omnisketch_merge_buckets B b c))
      = take B (sort_key ikey (stored a @ stored b @ stored c))"
  proof -
    have "sorted_ids (omnisketch_merge_buckets B a (omnisketch_merge_buckets B b c))
        = take B (merge_ids (sorted_ids a) (take B (merge_ids (sorted_ids b) (sorted_ids c))))"
      by (simp only: n(2) m(2))
    also have "\<dots> = take B (sort_key ikey (stored a @ stored b @ stored c))"
      unfolding sorted_ids_def by (rule bottom_three_right [OF d])
    finally show ?thesis .
  qed
  show "totalCount (fst (omnisketch_merge_buckets B a (omnisketch_merge_buckets B b c)))
      = totalCount (fst a) + totalCount (fst b) + totalCount (fst c)"
    by (simp add: n(3) m(3))
qed

lemma merge_rotated:
  assumes a: "cell_ok B a" and b: "cell_ok B b" and c: "cell_ok B c"
    and ab: "set (stored a) \<inter> set (stored b) = {}"
    and ac: "set (stored a) \<inter> set (stored c) = {}"
    and bc: "set (stored b) \<inter> set (stored c) = {}"
  shows "cell_ok B (omnisketch_merge_buckets B (omnisketch_merge_buckets B c a) b)"
    and "sorted_ids (omnisketch_merge_buckets B (omnisketch_merge_buckets B c a) b)
          = take B (sort_key ikey (stored a @ stored b @ stored c))"
    and "totalCount (fst (omnisketch_merge_buckets B (omnisketch_merge_buckets B c a) b))
          = totalCount (fst a) + totalCount (fst b) + totalCount (fst c)"
proof -
  have ca: "set (stored c) \<inter> set (stored a) = {}" and cb: "set (stored c) \<inter> set (stored b) = {}"
    using ac bc by blast+
  note l = merge_left [OF c a b ca cb ab]
  have d: "distinct (stored a @ stored b @ stored c)" "distinct (stored c @ stored a @ stored b)"
    using cell_ok_distinct [OF a] cell_ok_distinct [OF b] cell_ok_distinct [OF c] ab ac bc
    by auto
  have "sort_key ikey (stored c @ stored a @ stored b) = sort_key ikey (stored a @ stored b @ stored c)"
    using d by (intro sort_key_unique) auto
  then show "sorted_ids (omnisketch_merge_buckets B (omnisketch_merge_buckets B c a) b)
      = take B (sort_key ikey (stored a @ stored b @ stored c))"
    by (simp add: l(2))
  show "cell_ok B (omnisketch_merge_buckets B (omnisketch_merge_buckets B c a) b)" by (rule l(1))
  show "totalCount (fst (omnisketch_merge_buckets B (omnisketch_merge_buckets B c a) b))
      = totalCount (fst a) + totalCount (fst b) + totalCount (fst c)"
    by (simp add: l(3) ac_simps)
qed

text \<open>
  Two cells with the same count and the same stored IDs agree after finalize, up to the
  flag of a cell with fewer than two IDs.
\<close>

lemma canon_agree:
  assumes p: "cell_ok B p" and q: "cell_ok B q"
    and ids: "sorted_ids p = sorted_ids q"
    and tot: "totalCount (fst p) = totalCount (fst q)"
  shows "snd (finalize_bucket p) = snd (finalize_bucket q)"
    and "totalCount (fst (finalize_bucket p)) = totalCount (fst (finalize_bucket q))"
    and "sampleCount (fst (finalize_bucket p)) = sampleCount (fst (finalize_bucket q))"
    and "maxIndex (fst (finalize_bucket p)) = maxIndex (fst (finalize_bucket q))"
    and "maxHash (fst (finalize_bucket p)) = maxHash (fst (finalize_bucket q))"
    and "(2 \<le> sampleCount (fst (finalize_bucket p)) \<and> isSorted (fst (finalize_bucket p)))
       = (2 \<le> sampleCount (fst (finalize_bucket q)) \<and> isSorted (fst (finalize_bucket q)))"
proof -
  note cp = finalize_bucket_canon [OF p] and cq = finalize_bucket_canon [OF q]
  show "snd (finalize_bucket p) = snd (finalize_bucket q)" by (simp add: cp(3) cq(3) ids)
  show "totalCount (fst (finalize_bucket p)) = totalCount (fst (finalize_bucket q))"
    by (simp add: cp(1) cq(1) tot)
  show "sampleCount (fst (finalize_bucket p)) = sampleCount (fst (finalize_bucket q))"
    by (simp add: cp(2) cq(2) ids)
  show "maxIndex (fst (finalize_bucket p)) = maxIndex (fst (finalize_bucket q))"
    by (simp add: cp(4) cq(4) ids)
  show "maxHash (fst (finalize_bucket p)) = maxHash (fst (finalize_bucket q))"
    by (simp add: cp(5) cq(5) ids)
  show "(2 \<le> sampleCount (fst (finalize_bucket p)) \<and> isSorted (fst (finalize_bucket p)))
      = (2 \<le> sampleCount (fst (finalize_bucket q)) \<and> isSorted (fst (finalize_bucket q)))"
    using cp(6) cq(6) by (auto simp add: cp(2) cq(2) ids)
qed

section \<open>Combine cell by cell\<close>

lemma merge_at_cell:
  assumes "sketchWidth src = sketchWidth dst" and "sketchHeight src = sketchHeight dst"
  shows "merge_at src a i j dst =
     set_cell (SKETCH_BUCKET_INDEX dst a i j)
       (omnisketch_merge_buckets (sampleSize dst) (cell dst (SKETCH_BUCKET_INDEX dst a i j))
          (cell src (SKETCH_BUCKET_INDEX dst a i j))) dst"
  using assms
  by (simp add: merge_at_def set_cell_def cell_def Let_def split_beta SKETCH_BUCKET_INDEX_def
      SKETCH_SIZE_def)

lemma combine_as_cell_loop:
  assumes eq: "omnisketch_equals src dst"
  shows "combine_loops src dst =
     cell_loop (\<lambda>idx c. omnisketch_merge_buckets (sampleSize dst) c (cell src idx))
       [0..<num_buckets dst] dst"
proof -
  have dims: "numSketches src = numSketches dst" "sketchWidth src = sketchWidth dst"
    "sketchHeight src = sketchHeight dst"
    using eq by (simp_all add: omnisketch_equals_def)
  have "fold (\<lambda>a. fold (\<lambda>i. fold (\<lambda>j. merge_at src a i j) [0..<sketchWidth dst])
          [0..<sketchHeight dst]) [0..<numSketches dst] dst
      = cell_loop (\<lambda>idx c. omnisketch_merge_buckets (sampleSize dst) c (cell src idx))
          [0..<numSketches dst * (sketchWidth dst * sketchHeight dst)] dst"
  proof (rule nested_loops)
    fix a i j t
    assume h: "same_header dst t"
    then have "sketchWidth src = sketchWidth t" "sketchHeight src = sketchHeight t"
      using dims by (simp_all add: same_header_def)
    from merge_at_cell [OF this] h
    show "merge_at src a i j t =
        set_cell (a * (sketchWidth dst * sketchHeight dst) + i * sketchWidth dst + j)
          (omnisketch_merge_buckets (sampleSize dst)
             (cell t (a * (sketchWidth dst * sketchHeight dst) + i * sketchWidth dst + j))
             (cell src (a * (sketchWidth dst * sketchHeight dst) + i * sketchWidth dst + j))) t"
      by (simp add: SKETCH_BUCKET_INDEX_def SKETCH_SIZE_def same_header_def)
  qed
  then show ?thesis
    by (simp add: combine_loops_def dims num_buckets_def SKETCH_SIZE_def)
qed

lemma combine_cell:
  assumes "omnisketch_equals src dst" and "shaped dst" and "idx < num_buckets dst"
  shows "cell (combine_loops src dst) idx
       = omnisketch_merge_buckets (sampleSize dst) (cell dst idx) (cell src idx)"
  using assms by (simp add: combine_as_cell_loop cell_loop_cell shaped_def)

lemma sketch_ok_cells:
  "sketch_ok s \<longleftrightarrow>
     flags s = 0 \<and> shaped s \<and> (\<forall>idx < num_buckets s. cell_ok (sampleSize s) (cell s idx))"
  by (auto simp add: sketch_ok_def list_all_iff)

lemma sketch_ids_iff:
  "x \<in> sketch_ids s \<longleftrightarrow> (\<exists>idx < num_buckets s. x \<in> set (stored (cell s idx)))"
  by (auto simp add: sketch_ids_def)

lemma cells_disjoint:
  assumes "sketch_ids s \<inter> sketch_ids t = {}" and "idx < num_buckets s" and "idx < num_buckets t"
  shows "set (stored (cell s idx)) \<inter> set (stored (cell t idx)) = {}"
  using assms unfolding disjoint_iff sketch_ids_iff by blast

lemma equals_num_buckets: "omnisketch_equals a b \<Longrightarrow> num_buckets a = num_buckets b"
  by (simp add: omnisketch_equals_def num_buckets_def SKETCH_SIZE_def)

lemma combine_succeeds:
  assumes "omnisketch_equals src dst"
  shows "\<exists>r. omnisketch_combine True (Some dst) (Some src) = Inr (Some r)"
  using assms by (simp add: omnisketch_combine_def Let_def)

text \<open>
  Combine on two sketches that satisfy the invariants and share no ID: the result
  satisfies the invariants, and each of its cells is the merge of the two cells at that
  index.
\<close>

lemma combine_sound:
  assumes dst: "sketch_ok dst" and src: "sketch_ok src" and eq: "omnisketch_equals src dst"
    and dis: "sketch_ids dst \<inter> sketch_ids src = {}"
    and run: "omnisketch_combine True (Some dst) (Some src) = Inr (Some r)"
  shows "sketch_ok r"
    and "omnisketch_equals r dst"
    and "seed r = seed dst"
    and "count r = count dst + count src"
    and "\<And>idx. idx < num_buckets dst \<Longrightarrow>
           cell r idx = omnisketch_merge_buckets (sampleSize dst) (cell dst idx) (cell src idx)"
    and "sketch_ids r \<subseteq> sketch_ids dst \<union> sketch_ids src"
proof -
  let ?l = "combine_loops src dst"
  have r: "r = ?l\<lparr>count := count ?l + count src\<rparr>"
    using run eq by (simp add: omnisketch_combine_def Let_def)
  have sh: "shaped dst" and fl: "flags dst = 0"
    and ok_d: "\<And>idx. idx < num_buckets dst \<Longrightarrow> cell_ok (sampleSize dst) (cell dst idx)"
    using dst by (simp_all add: sketch_ok_cells)
  have n: "num_buckets src = num_buckets dst" using eq by (rule equals_num_buckets)
  have B: "sampleSize src = sampleSize dst" using eq by (simp add: omnisketch_equals_def)
  have ok_s: "\<And>idx. idx < num_buckets dst \<Longrightarrow> cell_ok (sampleSize dst) (cell src idx)"
    using src n B by (simp add: sketch_ok_cells)
  note hd = combine_loops_header [of src dst]
  have nr: "num_buckets r = num_buckets dst"
    by (simp add: r num_buckets_def SKETCH_SIZE_def hd)
  show cells: "cell r idx = omnisketch_merge_buckets (sampleSize dst) (cell dst idx) (cell src idx)"
    if "idx < num_buckets dst" for idx
    using combine_cell [OF eq sh that] by (simp add: r cell_def)
  have len: "length (buckets r) = length (buckets dst)" "length (samples r) = length (samples dst)"
    by (simp_all add: r combine_as_cell_loop [OF eq] cell_loop_lengths)
  have shr: "shaped r"
    using sh len nr by (simp add: shaped_def)
  have okr: "cell_ok (sampleSize r) (cell r idx)" if "idx < num_buckets r" for idx
  proof -
    have i: "idx < num_buckets dst" using that nr by simp
    then have "idx < num_buckets src" using n by simp
    with dis i have d: "set (stored (cell dst idx)) \<inter> set (stored (cell src idx)) = {}"
      by (intro cells_disjoint)
    have "cell_ok (sampleSize dst) (cell r idx)"
      unfolding cells [OF i] by (rule merge_buckets_sound(1) [OF ok_d [OF i] ok_s [OF i] d])
    then show ?thesis by (simp add: r hd)
  qed
  show "sketch_ids r \<subseteq> sketch_ids dst \<union> sketch_ids src"
  proof
    fix x
    assume "x \<in> sketch_ids r"
    then obtain idx where i: "idx < num_buckets dst" and x: "x \<in> set (stored (cell r idx))"
      unfolding sketch_ids_iff nr by blast
    have "idx < num_buckets src" using i n by simp
    with dis i have d: "set (stored (cell dst idx)) \<inter> set (stored (cell src idx)) = {}"
      by (intro cells_disjoint)
    from merge_buckets_sound(4) [OF ok_d [OF i] ok_s [OF i] d] x
    have "x \<in> set (stored (cell dst idx)) \<union> set (stored (cell src idx))"
      unfolding cells [OF i] by blast
    then show "x \<in> sketch_ids dst \<union> sketch_ids src"
      using i n by (auto simp add: sketch_ids_iff)
  qed
  show "sketch_ok r"
    using shr okr fl by (simp add: sketch_ok_cells) (simp add: r hd)
  show "omnisketch_equals r dst" by (simp add: r omnisketch_equals_def hd)
  show "seed r = seed dst" "count r = count dst + count src" by (simp_all add: r hd)
qed

section \<open>The order of combining three sketches\<close>

lemma agreeI:
  assumes "flags x = flags y" and "numSketches x = numSketches y"
    and "sketchWidth x = sketchWidth y" and "sketchHeight x = sketchHeight y"
    and "sampleSize x = sampleSize y" and "itemSize x = itemSize y" and "count x = count y"
    and len: "length (buckets x) = n" "length (buckets y) = n"
      "length (samples x) = n" "length (samples y) = n"
    and snd: "\<And>idx. idx < n \<Longrightarrow> snd (cell x idx) = snd (cell y idx)"
    and tot: "\<And>idx. idx < n \<Longrightarrow> totalCount (fst (cell x idx)) = totalCount (fst (cell y idx))"
    and cnt: "\<And>idx. idx < n \<Longrightarrow> sampleCount (fst (cell x idx)) = sampleCount (fst (cell y idx))"
    and mi: "\<And>idx. idx < n \<Longrightarrow> maxIndex (fst (cell x idx)) = maxIndex (fst (cell y idx))"
    and mh: "\<And>idx. idx < n \<Longrightarrow> maxHash (fst (cell x idx)) = maxHash (fst (cell y idx))"
    and srt: "\<And>idx. idx < n \<Longrightarrow>
        (2 \<le> sampleCount (fst (cell x idx)) \<and> isSorted (fst (cell x idx)))
      = (2 \<le> sampleCount (fst (cell y idx)) \<and> isSorted (fst (cell y idx)))"
  shows "agree_but_seed x y"
proof -
  have "samples x = samples y"
    using len snd by (intro nth_equalityI) (simp_all add: cell_def)
  moreover have "map totalCount (buckets x) = map totalCount (buckets y)"
    using len tot by (intro nth_equalityI) (simp_all add: cell_def)
  moreover have "map sampleCount (buckets x) = map sampleCount (buckets y)"
    using len cnt by (intro nth_equalityI) (simp_all add: cell_def)
  moreover have "map maxIndex (buckets x) = map maxIndex (buckets y)"
    using len mi by (intro nth_equalityI) (simp_all add: cell_def)
  moreover have "map maxHash (buckets x) = map maxHash (buckets y)"
    using len mh by (intro nth_equalityI) (simp_all add: cell_def)
  moreover have "map (\<lambda>b. 2 \<le> sampleCount b \<and> isSorted b) (buckets x)
      = map (\<lambda>b. 2 \<le> sampleCount b \<and> isSorted b) (buckets y)"
    using len srt by (intro nth_equalityI) (simp_all add: cell_def)
  ultimately show ?thesis
    using assms(1-7) by (simp add: agree_but_seed_def)
qed

lemma finalized_agree:
  assumes x: "sketch_ok x" and y: "sketch_ok y" and eq: "omnisketch_equals x y"
    and cnt: "count x = count y"
    and ids: "\<And>idx. idx < num_buckets x \<Longrightarrow> sorted_ids (cell x idx) = sorted_ids (cell y idx)"
    and tot: "\<And>idx. idx < num_buckets x \<Longrightarrow>
        totalCount (fst (cell x idx)) = totalCount (fst (cell y idx))"
  shows "agree_but_seed (omnisketch_finalize x) (omnisketch_finalize y)"
proof (rule agreeI [where n = "num_buckets x"])
  note hx = finalize_header [of x, unfolded same_header_def]
    and hy = finalize_header [of y, unfolded same_header_def]
  have shx: "shaped x" and shy: "shaped y" and fl: "flags x = 0" "flags y = 0"
    using x y by (simp_all add: sketch_ok_cells)
  have n: "num_buckets y = num_buckets x" using equals_num_buckets [OF eq] by simp
  have B: "sampleSize y = sampleSize x" using eq by (simp add: omnisketch_equals_def)
  show "flags (omnisketch_finalize x) = flags (omnisketch_finalize y)"
    "numSketches (omnisketch_finalize x) = numSketches (omnisketch_finalize y)"
    "sketchWidth (omnisketch_finalize x) = sketchWidth (omnisketch_finalize y)"
    "sketchHeight (omnisketch_finalize x) = sketchHeight (omnisketch_finalize y)"
    "sampleSize (omnisketch_finalize x) = sampleSize (omnisketch_finalize y)"
    "itemSize (omnisketch_finalize x) = itemSize (omnisketch_finalize y)"
    "count (omnisketch_finalize x) = count (omnisketch_finalize y)"
    using eq cnt fl by (simp_all add: hx hy omnisketch_equals_def)
  show "length (buckets (omnisketch_finalize x)) = num_buckets x"
    "length (samples (omnisketch_finalize x)) = num_buckets x"
    using shx by (simp_all add: finalize_as_cell_loop cell_loop_lengths shaped_def)
  show "length (buckets (omnisketch_finalize y)) = num_buckets x"
    "length (samples (omnisketch_finalize y)) = num_buckets x"
    using shy n by (simp_all add: finalize_as_cell_loop cell_loop_lengths shaped_def)
  fix idx
  assume i: "idx < num_buckets x"
  then have j: "idx < num_buckets y" using n by simp
  have cx: "cell_ok (sampleSize x) (cell x idx)" using x i by (simp add: sketch_ok_cells)
  have cy: "cell_ok (sampleSize x) (cell y idx)" using y j B by (simp add: sketch_ok_cells)
  note c = canon_agree [OF cx cy ids [OF i] tot [OF i]]
  note f = finalize_cell [OF shx i] finalize_cell [OF shy j]
  show "snd (cell (omnisketch_finalize x) idx) = snd (cell (omnisketch_finalize y) idx)"
    unfolding f by (rule c(1))
  show "totalCount (fst (cell (omnisketch_finalize x) idx))
      = totalCount (fst (cell (omnisketch_finalize y) idx))"
    unfolding f by (rule c(2))
  show "sampleCount (fst (cell (omnisketch_finalize x) idx))
      = sampleCount (fst (cell (omnisketch_finalize y) idx))"
    unfolding f by (rule c(3))
  show "maxIndex (fst (cell (omnisketch_finalize x) idx))
      = maxIndex (fst (cell (omnisketch_finalize y) idx))"
    unfolding f by (rule c(4))
  show "maxHash (fst (cell (omnisketch_finalize x) idx))
      = maxHash (fst (cell (omnisketch_finalize y) idx))"
    unfolding f by (rule c(5))
  show "(2 \<le> sampleCount (fst (cell (omnisketch_finalize x) idx))
        \<and> isSorted (fst (cell (omnisketch_finalize x) idx)))
      = (2 \<le> sampleCount (fst (cell (omnisketch_finalize y) idx))
        \<and> isSorted (fst (cell (omnisketch_finalize y) idx)))"
    unfolding f by (rule c(6))
qed

lemma equals_sym: "omnisketch_equals a b \<Longrightarrow> omnisketch_equals b a"
  by (simp add: omnisketch_equals_def)

lemma equals_trans: "omnisketch_equals a b \<Longrightarrow> omnisketch_equals b c \<Longrightarrow> omnisketch_equals a c"
  by (simp add: omnisketch_equals_def)

text \<open>
  C3 (amended). Let A, B and C be structurally equal sketches that satisfy the
  invariants and pairwise share no ID. Then combine succeeds in each of the three orders
  of the claim, and after finalize the three results agree in every field except the
  seed and the \<^verbatim>\<open>isSorted\<close> flag of buckets holding fewer than two IDs. The seed is
  that of the sketch the first combine received as its first argument.
\<close>

theorem combine_order_up_to_seed:
  assumes okA: "sketch_ok A" and okB: "sketch_ok B" and okC: "sketch_ok C"
    and eqAB: "omnisketch_equals A B" and eqBC: "omnisketch_equals B C"
    and disAB: "sketch_ids A \<inter> sketch_ids B = {}"
    and disAC: "sketch_ids A \<inter> sketch_ids C = {}"
    and disBC: "sketch_ids B \<inter> sketch_ids C = {}"
  shows "\<exists>ab bc ca x y z.
      omnisketch_combine True (Some A) (Some B) = Inr (Some ab) \<and>
      omnisketch_combine True (Some ab) (Some C) = Inr (Some x) \<and>
      omnisketch_combine True (Some B) (Some C) = Inr (Some bc) \<and>
      omnisketch_combine True (Some A) (Some bc) = Inr (Some y) \<and>
      omnisketch_combine True (Some C) (Some A) = Inr (Some ca) \<and>
      omnisketch_combine True (Some ca) (Some B) = Inr (Some z) \<and>
      agree_but_seed (omnisketch_finalize x) (omnisketch_finalize y) \<and>
      agree_but_seed (omnisketch_finalize x) (omnisketch_finalize z) \<and>
      seed (omnisketch_finalize x) = seed A \<and>
      seed (omnisketch_finalize y) = seed A \<and>
      seed (omnisketch_finalize z) = seed C"
proof -
  note eqBA = equals_sym [OF eqAB] and eqCB = equals_sym [OF eqBC]
  note eqAC = equals_trans [OF eqAB eqBC]
  note eqCA = equals_sym [OF eqAC]
  have disCA: "sketch_ids C \<inter> sketch_ids A = {}" using disAC by blast
  note nB = equals_num_buckets [OF eqBA] and nC = equals_num_buckets [OF eqCA]
  have sB: "sampleSize B = sampleSize A" and sC: "sampleSize C = sampleSize A"
    using eqBA eqCA by (simp_all add: omnisketch_equals_def)

  obtain ab where rab: "omnisketch_combine True (Some A) (Some B) = Inr (Some ab)"
    using combine_succeeds [OF eqBA] by blast
  note ab = combine_sound [OF okA okB eqBA disAB rab]
  have eqCab: "omnisketch_equals C ab"
    using equals_trans [OF eqCA equals_sym [OF ab(2)]] .
  have dis_ab: "sketch_ids ab \<inter> sketch_ids C = {}" using ab(6) disAC disBC by blast
  obtain x where rx: "omnisketch_combine True (Some ab) (Some C) = Inr (Some x)"
    using combine_succeeds [OF eqCab] by blast
  note x = combine_sound [OF ab(1) okC eqCab dis_ab rx]

  obtain bc where rbc: "omnisketch_combine True (Some B) (Some C) = Inr (Some bc)"
    using combine_succeeds [OF eqCB] by blast
  note bc = combine_sound [OF okB okC eqCB disBC rbc]
  have eqbcA: "omnisketch_equals bc A" using equals_trans [OF bc(2) eqBA] .
  have dis_bc: "sketch_ids A \<inter> sketch_ids bc = {}" using bc(6) disAB disAC by blast
  obtain y where ry: "omnisketch_combine True (Some A) (Some bc) = Inr (Some y)"
    using combine_succeeds [OF eqbcA] by blast
  note y = combine_sound [OF okA bc(1) eqbcA dis_bc ry]

  obtain ca where rca: "omnisketch_combine True (Some C) (Some A) = Inr (Some ca)"
    using combine_succeeds [OF eqAC] by blast
  note ca = combine_sound [OF okC okA eqAC disCA rca]
  have eqBca: "omnisketch_equals B ca"
    using equals_trans [OF eqBC equals_sym [OF ca(2)]] .
  have dis_ca: "sketch_ids ca \<inter> sketch_ids B = {}" using ca(6) disAB disBC by blast
  obtain z where rz: "omnisketch_combine True (Some ca) (Some B) = Inr (Some z)"
    using combine_succeeds [OF eqBca] by blast
  note z = combine_sound [OF ca(1) okB eqBca dis_ca rz]

  note n_ab = equals_num_buckets [OF ab(2)]
  note n_ca = equals_num_buckets [OF equals_trans [OF ca(2) eqCA]]
  have s_ab: "sampleSize ab = sampleSize A"
    using ab(2) by (simp add: omnisketch_equals_def)
  have s_ca: "sampleSize ca = sampleSize A"
    using equals_trans [OF ca(2) eqCA] by (simp add: omnisketch_equals_def)
  have eq_xA: "omnisketch_equals x A" using equals_trans [OF x(2) ab(2)] .
  have eq_yA: "omnisketch_equals y A" using y(2) .
  have eq_zA: "omnisketch_equals z A" using equals_trans [OF z(2) equals_trans [OF ca(2) eqCA]] .
  have n_x: "num_buckets x = num_buckets A" using eq_xA by (rule equals_num_buckets)

  have cells: "sorted_ids (cell x idx) = sorted_ids (cell y idx)
      \<and> totalCount (fst (cell x idx)) = totalCount (fst (cell y idx))
      \<and> sorted_ids (cell x idx) = sorted_ids (cell z idx)
      \<and> totalCount (fst (cell x idx)) = totalCount (fst (cell z idx))"
    if i: "idx < num_buckets A" for idx
  proof -
    let ?S = "sampleSize A"
    let ?a = "cell A idx" and ?b = "cell B idx" and ?c = "cell C idx"
    have a: "cell_ok ?S ?a" and b: "cell_ok ?S ?b" and c: "cell_ok ?S ?c"
      using okA okB okC i nB nC sB sC by (simp_all add: sketch_ok_cells)
    have d: "set (stored ?a) \<inter> set (stored ?b) = {}" "set (stored ?a) \<inter> set (stored ?c) = {}"
      "set (stored ?b) \<inter> set (stored ?c) = {}"
      using i nB nC disAB disAC disBC by (simp_all add: cells_disjoint)
    have cx: "cell x idx = omnisketch_merge_buckets ?S (omnisketch_merge_buckets ?S ?a ?b) ?c"
      using x(5) [of idx] ab(5) [of idx] i by (simp add: n_ab s_ab)
    have cy: "cell y idx = omnisketch_merge_buckets ?S ?a (omnisketch_merge_buckets ?S ?b ?c)"
      using y(5) [of idx] bc(5) [of idx] i by (simp add: nB sB)
    have cz: "cell z idx = omnisketch_merge_buckets ?S (omnisketch_merge_buckets ?S ?c ?a) ?b"
      using z(5) [of idx] ca(5) [of idx] i by (simp add: n_ca s_ca nC sC)
    note l = merge_left [OF a b c d] and r = merge_right [OF a b c d]
      and t = merge_rotated [OF a b c d]
    show ?thesis unfolding cx cy cz by (simp add: l(2,3) r(2,3) t(2,3))
  qed
  have cxy: "count x = count y" and cxz: "count x = count z"
    by (simp_all only: x(4) y(4) z(4) ab(4) bc(4) ca(4) ac_simps)
  have xy: "agree_but_seed (omnisketch_finalize x) (omnisketch_finalize y)"
  proof (rule finalized_agree [OF x(1) y(1) equals_trans [OF eq_xA equals_sym [OF eq_yA]] cxy])
    fix idx
    assume "idx < num_buckets x"
    then have "idx < num_buckets A" by (simp only: n_x)
    note c = cells [OF this]
    show "sorted_ids (cell x idx) = sorted_ids (cell y idx)" using c by (rule conjunct1)
    show "totalCount (fst (cell x idx)) = totalCount (fst (cell y idx))"
      using c by (elim conjE)
  qed
  have xz: "agree_but_seed (omnisketch_finalize x) (omnisketch_finalize z)"
  proof (rule finalized_agree [OF x(1) z(1) equals_trans [OF eq_xA equals_sym [OF eq_zA]] cxz])
    fix idx
    assume "idx < num_buckets x"
    then have "idx < num_buckets A" by (simp only: n_x)
    note c = cells [OF this]
    show "sorted_ids (cell x idx) = sorted_ids (cell z idx)" using c by (elim conjE)
    show "totalCount (fst (cell x idx)) = totalCount (fst (cell z idx))"
      using c by (elim conjE)
  qed
  have sx: "seed (omnisketch_finalize x) = seed A"
    using finalize_header [of x] by (simp add: same_header_def x(3) ab(3))
  have sy: "seed (omnisketch_finalize y) = seed A"
    using finalize_header [of y] by (simp add: same_header_def y(3))
  have sz: "seed (omnisketch_finalize z) = seed C"
    using finalize_header [of z] by (simp add: same_header_def z(3) ca(3))
  from rab rx rbc ry rca rz xy xz sx sy sz
  have "omnisketch_combine True (Some A) (Some B) = Inr (Some ab) \<and>
      omnisketch_combine True (Some ab) (Some C) = Inr (Some x) \<and>
      omnisketch_combine True (Some B) (Some C) = Inr (Some bc) \<and>
      omnisketch_combine True (Some A) (Some bc) = Inr (Some y) \<and>
      omnisketch_combine True (Some C) (Some A) = Inr (Some ca) \<and>
      omnisketch_combine True (Some ca) (Some B) = Inr (Some z) \<and>
      agree_but_seed (omnisketch_finalize x) (omnisketch_finalize y) \<and>
      agree_but_seed (omnisketch_finalize x) (omnisketch_finalize z) \<and>
      seed (omnisketch_finalize x) = seed A \<and>
      seed (omnisketch_finalize y) = seed A \<and>
      seed (omnisketch_finalize z) = seed C"
    by (intro conjI)
  then show ?thesis by (intro exI)
qed

section \<open>The bytes combine writes\<close>

lemma unchanged_refl: "unchanged_outside S m m"
  by (simp add: unchanged_outside_def)

lemma unchanged_trans:
  "unchanged_outside S m m1 \<Longrightarrow> unchanged_outside S m1 m2 \<Longrightarrow> unchanged_outside S m m2"
  by (simp add: unchanged_outside_def)

lemma unchanged_mono:
  "unchanged_outside S m m' \<Longrightarrow> S \<subseteq> T \<Longrightarrow> unchanged_outside T m m'"
  by (auto simp add: unchanged_outside_def)

lemma store8_frame: "p \<in> S \<Longrightarrow> unchanged_outside S m (m(p := v))"
  by (auto simp add: unchanged_outside_def)

lemma store16_frame:
  "p \<in> S \<Longrightarrow> p + 1 \<in> S \<Longrightarrow> unchanged_outside S m (store16 p v m)"
  by (auto simp add: unchanged_outside_def store16_def)

lemma store32_frame:
  assumes "{x. p \<le> x \<and> x < p + 4} \<subseteq> S"
  shows "unchanged_outside S m (store32 p v m)"
proof -
  have "p \<in> S" "p + 1 \<in> S" "p + 2 \<in> S" "p + 2 + 1 \<in> S" using assms by auto
  then show ?thesis
    unfolding store32_def by (intro unchanged_trans [OF store16_frame store16_frame])
qed

lemma load16_unchanged:
  assumes "unchanged_outside S m m'" and "p \<notin> S" and "p + 1 \<notin> S"
  shows "load16 m' p = load16 m p"
  using assms by (simp add: unchanged_outside_def load16_def)

text \<open>The merge of one cell writes to the destination's bucket and sample only.\<close>

lemma merge_loop_at_frame:
  "unchanged_outside (cell_bytes db ds B) m (snd (merge_loop_at B di si db sb ds i j k m))"
proof (induction B di si db sb ds i j k m rule: merge_loop_at.induct)
  case (1 B di si db sb ds i j k m)
  let ?S = "cell_bytes db ds B"
  show ?case
  proof (cases "int k < B \<and> (i < unat (load16 m (db + 4)) \<or> j < unat (load16 m (sb + 4)))")
    case False
    then have "merge_loop_at B di si db sb ds i j k m = (k, m)"
      by (subst merge_loop_at.simps) auto
    then show ?thesis by (simp add: unchanged_refl)
  next
    case True
    have st: "unchanged_outside ?S m (store32 (db + 8) h (store32 (ds + 4 * int k) v m))" for h v
    proof (rule unchanged_trans)
      show "unchanged_outside ?S m (store32 (ds + 4 * int k) v m)"
        using True by (intro store32_frame) (auto simp add: cell_bytes_def)
      show "unchanged_outside ?S (store32 (ds + 4 * int k) v m)
          (store32 (db + 8) h (store32 (ds + 4 * int k) v m))"
        by (intro store32_frame) (auto simp add: cell_bytes_def)
    qed
    show ?thesis
    proof (cases "i = unat (load16 m (db + 4))")
      case c1: True
      have "merge_loop_at B di si db sb ds i j k m
          = merge_loop_at B di si db sb ds i (j + 1) (k + 1)
              (store32 (db + 8) (hash (si ! j)) (store32 (ds + 4 * int k) (item (si ! j)) m))"
        using True c1 by (subst merge_loop_at.simps) simp
      then show ?thesis
        using unchanged_trans [OF st "1.IH"(1) [OF True c1]] by simp
    next
      case c1: False
      show ?thesis
      proof (cases "j = unat (load16 m (sb + 4))")
        case c2: True
        have "merge_loop_at B di si db sb ds i j k m
            = merge_loop_at B di si db sb ds (i + 1) j (k + 1)
                (store32 (db + 8) (hash (di ! i)) (store32 (ds + 4 * int k) (item (di ! i)) m))"
          using True c1 c2 by (subst merge_loop_at.simps) simp
        then show ?thesis
          using unchanged_trans [OF st "1.IH"(2) [OF True c1 c2]] by simp
      next
        case c2: False
        show ?thesis
        proof (cases "0 < cmp_item_hash (di ! i) (si ! j)")
          case c3: True
          have "merge_loop_at B di si db sb ds i j k m
              = merge_loop_at B di si db sb ds i (j + 1) (k + 1)
                  (store32 (db + 8) (hash (si ! j)) (store32 (ds + 4 * int k) (item (si ! j)) m))"
            using True c1 c2 c3 by (subst merge_loop_at.simps) simp
          then show ?thesis
            using unchanged_trans [OF st "1.IH"(3) [OF True c1 c2 c3]] by simp
        next
          case c3: False
          have "merge_loop_at B di si db sb ds i j k m
              = merge_loop_at B di si db sb ds (i + 1) j (k + 1)
                  (store32 (db + 8) (hash (di ! i)) (store32 (ds + 4 * int k) (item (di ! i)) m))"
            using True c1 c2 c3 by (subst merge_loop_at.simps) simp
          then show ?thesis
            using unchanged_trans [OF st "1.IH"(4) [OF True c1 c2 c3]] by simp
        qed
      qed
    qed
  qed
qed

lemma merge_buckets_at_frame:
  "unchanged_outside (cell_bytes db ds B) m (merge_buckets_at B db sb ds ss m)"
proof (cases "load16 m (sb + 4) = 0")
  case True
  then show ?thesis by (simp add: merge_buckets_at_def unchanged_refl)
next
  case False
  let ?S = "cell_bytes db ds B"
  obtain k m1 where r: "merge_loop_at B (sorted_items_at m db ds) (sorted_items_at m sb ss) db sb ds 0 0 0 m = (k, m1)"
    by (cases "merge_loop_at B (sorted_items_at m db ds) (sorted_items_at m sb ss) db sb ds 0 0 0 m")
  have u1: "unchanged_outside ?S m m1"
    using merge_loop_at_frame [of db ds B m "sorted_items_at m db ds" "sorted_items_at m sb ss" sb 0 0 0]
    by (simp add: r)
  let ?m2 = "store32 db (load32 m1 db + load32 m1 sb) m1"
  let ?m3 = "?m2(db + 12 := 1)"
  let ?m4 = "store16 (db + 4) (of_nat k) ?m3"
  let ?m5 = "store16 (db + 6) (load16 ?m4 (db + 4) - 1) ?m4"
  have u2: "unchanged_outside ?S m1 ?m2"
    by (intro store32_frame) (auto simp add: cell_bytes_def)
  have u3: "unchanged_outside ?S ?m2 ?m3"
    by (intro store8_frame) (simp add: cell_bytes_def)
  have u4: "unchanged_outside ?S ?m3 ?m4"
    by (intro store16_frame) (simp_all add: cell_bytes_def)
  have u5: "unchanged_outside ?S ?m4 ?m5"
    by (intro store16_frame) (simp_all add: cell_bytes_def)
  have "merge_buckets_at B db sb ds ss m = ?m5"
    using False by (simp add: merge_buckets_at_def r Let_def)
  then show ?thesis
    using unchanged_trans [OF unchanged_trans [OF unchanged_trans [OF unchanged_trans [OF u1 u2] u3] u4] u5]
    by simp
qed


lemma MAXALIGN_28: "MAXALIGN 28 = 32"
  by (simp add: MAXALIGN_def)

lemma MAXALIGN_ge: "x \<le> MAXALIGN x"
  unfolding MAXALIGN_def by presburger

lemma MAXALIGN_16: "MAXALIGN (x * 16) = x * 16"
  unfolding MAXALIGN_def by presburger

lemma index_bound:
  fixes a i j C W D :: int
  assumes "0 \<le> a" "a < C" "0 \<le> i" "i < D" "0 \<le> j" "j < W"
  shows "0 \<le> a * (W * D) + i * W + j" and "a * (W * D) + i * W + j + 1 \<le> C * (W * D)"
proof -
  have W: "0 < W" and D: "0 < D" using assms by simp_all
  show "0 \<le> a * (W * D) + i * W + j" using assms W D by simp
  have 1: "a * (W * D) \<le> (C - 1) * (W * D)"
    using assms W D by (intro mult_right_mono) simp_all
  have 2: "i * W \<le> (D - 1) * W"
    using assms W by (intro mult_right_mono) simp_all
  have 3: "(C - 1) * (W * D) + (D - 1) * W + W = C * (W * D)" by (simp add: algebra_simps)
  show "a * (W * D) + i * W + j + 1 \<le> C * (W * D)"
    using 1 2 3 assms(6) by linarith
qed

text \<open>A cell the loops visit lies behind the header of its sketch and inside it.\<close>

lemma cell_in_data:
  assumes a: "0 \<le> a" "a < numSketches_at m s" and i: "0 \<le> i" "i < sketchHeight_at m s"
    and j: "0 \<le> j" "j < sketchWidth_at m s"
  shows "cell_bytes (SKETCH_BUCKET m s a i j) (SKETCH_SAMPLE m s a i j) (sampleSize_at m s)
       \<subseteq> sketch_data m s"
proof -
  define C W D B where "C = numSketches_at m s" and "W = sketchWidth_at m s"
    and "D = sketchHeight_at m s" and "B = sampleSize_at m s"
  define idx where "idx = a * (W * D) + i * W + j"
  have pos: "0 < C" "0 < W" "0 < D" using a i j by (simp_all add: C_def W_def D_def)
  have idx: "0 \<le> idx" "idx + 1 \<le> C * (W * D)"
    unfolding idx_def using a i j by (intro index_bound; simp add: C_def W_def D_def)+
  have cells: "sketch_cells m s = C * (W * D)"
    using pos by (simp add: sketch_cells_def C_def W_def D_def)
  have bucket: "SKETCH_BUCKET m s a i j = s + 32 + 16 * idx"
    by (simp add: SKETCH_BUCKET_def SKETCH_BUCKETS_def SKETCH_BUCKET_INDEX_at_def SKETCH_SIZE_at_def
        MAXALIGN_28 idx_def W_def D_def)
  have "W * D * C * 16 = C * (W * D) * 16" by simp
  then have sample: "SKETCH_SAMPLE m s a i j = s + 32 + C * (W * D) * 16 + 4 * (idx * B)"
    by (simp add: SKETCH_SAMPLE_def SKETCH_SAMPLES_def SKETCH_BUCKET_INDEX_at_def SKETCH_SIZE_at_def
        MAXALIGN_28 MAXALIGN_16 idx_def W_def D_def C_def B_def)
  have len: "sketch_length m s = 32 + C * (W * D) * 16 + MAXALIGN (C * (W * D) * 4 * int (nat B))"
    by (simp add: sketch_length_def cells MAXALIGN_28 MAXALIGN_16 B_def)
  have cwd: "0 \<le> C * (W * D)" using pos by simp
  then have "0 \<le> C * (W * D) * 4 * int (nat B)" by simp
  then have tail: "0 \<le> MAXALIGN (C * (W * D) * 4 * int (nat B))"
    using MAXALIGN_ge [of "C * (W * D) * 4 * int (nat B)"] by linarith
  show ?thesis
  proof
    fix x
    assume "x \<in> cell_bytes (SKETCH_BUCKET m s a i j) (SKETCH_SAMPLE m s a i j) (sampleSize_at m s)"
    then consider (b) "s + 32 + 16 * idx \<le> x" "x < s + 32 + 16 * idx + 16"
      | (smp) "s + 32 + C * (W * D) * 16 + 4 * (idx * B) \<le> x"
          "x < s + 32 + C * (W * D) * 16 + 4 * (idx * B) + 4 * B"
      unfolding cell_bytes_def bucket sample B_def [symmetric] by auto
    then show "x \<in> sketch_data m s"
    proof cases
      case b
      then show ?thesis
        using idx tail cwd by (simp add: sketch_data_def len MAXALIGN_28)
    next
      case smp
      then have B: "0 < B" by simp
      have "(idx + 1) * B \<le> C * (W * D) * B"
        using idx(2) B by (intro mult_right_mono) simp_all
      then have "4 * (idx * B) + 4 * B \<le> C * (W * D) * 4 * int (nat B)"
        using B by (simp add: algebra_simps)
      also have "\<dots> \<le> MAXALIGN (C * (W * D) * 4 * int (nat B))" by (rule MAXALIGN_ge)
      finally have up: "4 * (idx * B) + 4 * B \<le> MAXALIGN (C * (W * D) * 4 * int (nat B))" .
      have "0 \<le> idx * B" using idx(1) B by simp
      then show ?thesis
        using smp up cwd by (simp add: sketch_data_def len MAXALIGN_28)
    qed
  qed
qed

text \<open>Header fields survive every write that stays clear of them.\<close>

lemma header_unchanged:
  assumes u: "unchanged_outside S m0 m" and h: "{x. s + 8 \<le> x \<and> x < s + 18} \<inter> S = {}"
  shows "numSketches_at m s = numSketches_at m0 s"
    and "sketchWidth_at m s = sketchWidth_at m0 s"
    and "sketchHeight_at m s = sketchHeight_at m0 s"
    and "sampleSize_at m s = sampleSize_at m0 s"
    and "itemSize_at m s = itemSize_at m0 s"
proof -
  have out: "s + k \<notin> S" if "8 \<le> k" "k < 18" for k
  proof -
    have "s + k \<in> {x. s + 8 \<le> x \<and> x < s + 18}" using that by simp
    with h show ?thesis by blast
  qed
  have "load16 m (s + k) = load16 m0 (s + k)" if "8 \<le> k" "k < 17" for k
    using out [of k] out [of "k + 1"] that load16_unchanged [OF u, of "s + k"]
    by (simp add: add.assoc)
  then show "numSketches_at m s = numSketches_at m0 s"
    and "sketchWidth_at m s = sketchWidth_at m0 s"
    and "sketchHeight_at m s = sketchHeight_at m0 s"
    and "sampleSize_at m s = sampleSize_at m0 s"
    and "itemSize_at m s = itemSize_at m0 s"
    by (simp_all add: numSketches_at_def sketchWidth_at_def sketchHeight_at_def
        sampleSize_at_def itemSize_at_def)
qed

lemma own_header_clear: "{x. s + 8 \<le> x \<and> x < s + 18} \<inter> sketch_data m s = {}"
  by (auto simp add: sketch_data_def MAXALIGN_28)

lemma sketch_data_cong:
  assumes "numSketches_at m s = numSketches_at m0 s" and "sketchWidth_at m s = sketchWidth_at m0 s"
    and "sketchHeight_at m s = sketchHeight_at m0 s" and "sampleSize_at m s = sampleSize_at m0 s"
  shows "sketch_data m s = sketch_data m0 s"
  using assms by (simp add: sketch_data_def sketch_length_def sketch_cells_def)

text \<open>
  The loops. \<open>m0\<close> is the memory at the call. As long as only the destination's data
  has changed, both headers read as they did at the call, so every round addresses a
  cell of the destination.
\<close>

lemma combine_loop_j_frame:
  assumes "{x. src + 8 \<le> x \<and> x < src + 18} \<inter> sketch_data m0 dst = {}"
    and "omnisketch_equals_at m0 src dst"
    and "int a < numSketches_at m0 dst" and "int i < sketchHeight_at m0 dst"
    and "unchanged_outside (sketch_data m0 dst) m0 m"
  shows "unchanged_outside (sketch_data m0 dst) m0 (combine_loop_j dst src a i j m)"
  using assms
proof (induction dst src a i j m rule: combine_loop_j.induct)
  case (1 dst src a i j m)
  note hs = "1.prems"(1) and eq = "1.prems"(2) and a = "1.prems"(3) and i = "1.prems"(4)
    and inv = "1.prems"(5)
  show ?case
  proof (cases "int j < sketchWidth_at m src")
    case False
    then have "combine_loop_j dst src a i j m = m" by (subst combine_loop_j.simps) simp
    then show ?thesis using inv by simp
  next
    case True
    note hd = header_unchanged [OF inv own_header_clear]
    note hsrc = header_unchanged [OF inv hs]
    have j: "int j < sketchWidth_at m dst"
      using True eq by (simp add: hd hsrc omnisketch_equals_at_def)
    let ?m' = "merge_buckets_at (sampleSize_at m dst)
        (SKETCH_BUCKET m dst (int a) (int i) (int j)) (SKETCH_BUCKET m src (int a) (int i) (int j))
        (SKETCH_SAMPLE m dst (int a) (int i) (int j)) (SKETCH_SAMPLE m src (int a) (int i) (int j)) m"
    have "cell_bytes (SKETCH_BUCKET m dst (int a) (int i) (int j))
        (SKETCH_SAMPLE m dst (int a) (int i) (int j)) (sampleSize_at m dst) \<subseteq> sketch_data m dst"
      using a i j by (intro cell_in_data) (simp_all add: hd)
    also have "sketch_data m dst = sketch_data m0 dst"
      by (intro sketch_data_cong hd)
    finally have "unchanged_outside (sketch_data m0 dst) m ?m'"
      by (rule unchanged_mono [OF merge_buckets_at_frame])
    then have inv': "unchanged_outside (sketch_data m0 dst) m0 ?m'"
      by (rule unchanged_trans [OF inv])
    have "combine_loop_j dst src a i j m = combine_loop_j dst src a i (j + 1) ?m'"
      using True by (subst combine_loop_j.simps) simp
    then show ?thesis
      using "1.IH" [OF True hs eq a i inv'] by simp
  qed
qed

lemma combine_loop_i_frame:
  assumes "{x. src + 8 \<le> x \<and> x < src + 18} \<inter> sketch_data m0 dst = {}"
    and "omnisketch_equals_at m0 src dst"
    and "int a < numSketches_at m0 dst"
    and "unchanged_outside (sketch_data m0 dst) m0 m"
  shows "unchanged_outside (sketch_data m0 dst) m0 (combine_loop_i dst src a i m)"
  using assms
proof (induction dst src a i m rule: combine_loop_i.induct)
  case (1 dst src a i m)
  note hs = "1.prems"(1) and eq = "1.prems"(2) and a = "1.prems"(3) and inv = "1.prems"(4)
  show ?case
  proof (cases "int i < sketchHeight_at m src")
    case False
    then have "combine_loop_i dst src a i m = m" by (subst combine_loop_i.simps) simp
    then show ?thesis using inv by simp
  next
    case True
    note hd = header_unchanged [OF inv own_header_clear]
    note hsrc = header_unchanged [OF inv hs]
    have i: "int i < sketchHeight_at m0 dst"
      using True eq by (simp add: hsrc omnisketch_equals_at_def)
    have inv': "unchanged_outside (sketch_data m0 dst) m0 (combine_loop_j dst src a i 0 m)"
      using hs eq a i inv by (rule combine_loop_j_frame)
    have "combine_loop_i dst src a i m = combine_loop_i dst src a (i + 1) (combine_loop_j dst src a i 0 m)"
      using True by (subst combine_loop_i.simps) simp
    then show ?thesis
      using "1.IH" [OF True hs eq a inv'] by simp
  qed
qed

lemma combine_loop_a_frame:
  assumes "{x. src + 8 \<le> x \<and> x < src + 18} \<inter> sketch_data m0 dst = {}"
    and "omnisketch_equals_at m0 src dst"
    and "unchanged_outside (sketch_data m0 dst) m0 m"
  shows "unchanged_outside (sketch_data m0 dst) m0 (combine_loop_a dst src a m)"
  using assms
proof (induction dst src a m rule: combine_loop_a.induct)
  case (1 dst src a m)
  note hs = "1.prems"(1) and eq = "1.prems"(2) and inv = "1.prems"(3)
  show ?case
  proof (cases "int a < numSketches_at m src")
    case False
    then have "combine_loop_a dst src a m = m" by (subst combine_loop_a.simps) simp
    then show ?thesis using inv by simp
  next
    case True
    note hsrc = header_unchanged [OF inv hs]
    have a: "int a < numSketches_at m0 dst"
      using True eq by (simp add: hsrc omnisketch_equals_at_def)
    have inv': "unchanged_outside (sketch_data m0 dst) m0 (combine_loop_i dst src a 0 m)"
      using hs eq a inv by (rule combine_loop_i_frame)
    have "combine_loop_a dst src a m = combine_loop_a dst src (a + 1) (combine_loop_i dst src a 0 m)"
      using True by (subst combine_loop_a.simps) simp
    then show ?thesis
      using "1.IH" [OF True hs eq inv'] by simp
  qed
qed

lemma sketch_length_ge: "32 \<le> sketch_length m s"
proof -
  have c: "0 \<le> sketch_cells m s" by (simp add: sketch_cells_def)
  then have "0 \<le> sketch_cells m s * 16" by simp
  then have "0 \<le> MAXALIGN (sketch_cells m s * 16)"
    using MAXALIGN_ge [of "sketch_cells m s * 16"] by linarith
  moreover have "0 \<le> sketch_cells m s * 4 * int (nat (sampleSize_at m s))" using c by simp
  then have "0 \<le> MAXALIGN (sketch_cells m s * 4 * int (nat (sampleSize_at m s)))"
    using MAXALIGN_ge [of "sketch_cells m s * 4 * int (nat (sampleSize_at m s))"] by linarith
  ultimately show ?thesis by (simp add: sketch_length_def MAXALIGN_28)
qed

lemma sketch_data_subset: "sketch_data m s \<subseteq> sketch_bytes m s"
  by (auto simp add: sketch_data_def sketch_bytes_def MAXALIGN_28)

lemma header_in_bytes: "0 \<le> k \<Longrightarrow> k < 32 \<Longrightarrow> s + k \<in> sketch_bytes m s"
  using sketch_length_ge [of m s] by (simp add: sketch_bytes_def)

text \<open>
  C9. Let \<open>dst\<close> and \<open>src\<close> point to two structurally equal sketches that are either
  one object or two objects without a common byte, as allocated objects are. Then
  \<^verbatim>\<open>omnisketch_combine\<close> returns \<open>dst\<close>, and every byte it has changed is a byte of the
  sketch at \<open>dst\<close>: only the first sketch is mutated. A second sketch that is another
  object is unchanged byte for byte.
\<close>

theorem combine_writes_first_sketch_only:
  assumes eq: "omnisketch_equals_at m src dst"
    and objects: "src = dst \<or> sketch_bytes m dst \<inter> sketch_bytes m src = {}"
  shows "\<exists>m'. omnisketch_combine_at True (Some dst) (Some src) fresh len m = Inr (Some dst, m')
           \<and> (\<forall>x. x \<notin> sketch_bytes m dst \<longrightarrow> m' x = m x)
           \<and> (src \<noteq> dst \<longrightarrow> (\<forall>x \<in> sketch_bytes m src. m' x = m x))"
proof -
  let ?m1 = "combine_loop_a dst src 0 m"
  let ?m' = "store32 (dst + 20) (load32 ?m1 (dst + 20) + load32 ?m1 (src + 20)) ?m1"
  have hs: "{x. src + 8 \<le> x \<and> x < src + 18} \<inter> sketch_data m dst = {}"
  proof (cases "src = dst")
    case True
    then show ?thesis by (simp add: own_header_clear)
  next
    case False
    have "{x. src + 8 \<le> x \<and> x < src + 18} \<subseteq> sketch_bytes m src"
      using sketch_length_ge [of m src] by (auto simp add: sketch_bytes_def)
    then show ?thesis using False objects sketch_data_subset [of m dst] by blast
  qed
  have "unchanged_outside (sketch_data m dst) m ?m1"
    using hs eq unchanged_refl by (rule combine_loop_a_frame)
  then have u1: "unchanged_outside (sketch_bytes m dst) m ?m1"
    using sketch_data_subset by (rule unchanged_mono)
  have "{x. dst + 20 \<le> x \<and> x < dst + 20 + 4} \<subseteq> sketch_bytes m dst"
    using sketch_length_ge [of m dst] by (auto simp add: sketch_bytes_def)
  then have "unchanged_outside (sketch_bytes m dst) ?m1 ?m'"
    by (rule store32_frame)
  with u1 have u: "unchanged_outside (sketch_bytes m dst) m ?m'"
    by (rule unchanged_trans)
  have run: "omnisketch_combine_at True (Some dst) (Some src) fresh len m = Inr (Some dst, ?m')"
    using eq by (simp add: omnisketch_combine_at_def Let_def)
  have frame: "\<forall>x. x \<notin> sketch_bytes m dst \<longrightarrow> ?m' x = m x"
    using u by (simp add: unchanged_outside_def)
  moreover have "src \<noteq> dst \<longrightarrow> (\<forall>x \<in> sketch_bytes m src. ?m' x = m x)"
    using frame objects by blast
  ultimately show ?thesis using run by blast
qed

section \<open>Combine on the example memory\<close>

lemma word_cat_bytes: "(word_cat (a :: 8 word) (b :: 8 word) :: 16 word) = push_bit 8 (ucast a) + ucast b"
  by (simp add: word_cat_eq)

lemma word_cat_halves: "(word_cat (a :: 16 word) (b :: 16 word) :: 32 word) = push_bit 16 (ucast a) + ucast b"
  by (simp add: word_cat_eq)

lemmas load_eval = load16_def load32_def word_cat_bytes word_cat_halves

lemma ex_hdr:
  "numSketches_at ex_memory 0 = 1" "sketchWidth_at ex_memory 0 = 2"
  "sketchHeight_at ex_memory 0 = 1" "sampleSize_at ex_memory 0 = 3" "itemSize_at ex_memory 0 = 40"
  "numSketches_at ex_memory 1000 = 1" "sketchWidth_at ex_memory 1000 = 2"
  "sketchHeight_at ex_memory 1000 = 1" "sampleSize_at ex_memory 1000 = 3" "itemSize_at ex_memory 1000 = 40"
  by (simp_all add: numSketches_at_def sketchWidth_at_def sketchHeight_at_def sampleSize_at_def
      itemSize_at_def load_eval ex_memory_def ex_bytes_A_def ex_bytes_B_def)

lemma ex_A_at: "sketch_at ex_memory 0 = ex_A1"
  by (simp add: sketch_at_def bucket_at_def ex_hdr sketch_cells_def SKETCH_BUCKETS_def SKETCH_SAMPLES_def
      SKETCH_SIZE_at_def MAXALIGN_def upt_rec ex_A1_def)
    (simp add: load_eval ex_memory_def ex_bytes_A_def)

lemma ex_B_at: "sketch_at ex_memory 1000 = ex_B1"
  by (simp add: sketch_at_def bucket_at_def ex_hdr sketch_cells_def SKETCH_BUCKETS_def SKETCH_SAMPLES_def
      SKETCH_SIZE_at_def MAXALIGN_def upt_rec ex_B1_def)
    (simp add: load_eval ex_memory_def ex_bytes_B_def)

lemma ex_memory_at:
  "ex_memory 0 = 96" "ex_memory 1 = 1"
  "ex_memory (numeral n) =
     (if numeral n < (88 :: int) then ex_bytes_A ! nat (numeral n)
      else if (1000 :: int) \<le> numeral n \<and> numeral n < (1088 :: int)
      then ex_bytes_B ! nat (numeral n - 1000) else 0)"
  by (simp_all add: ex_memory_def ex_bytes_A_def)

lemmas mem_eval = load_eval store16_def store32_def numSketches_at_def sketchWidth_at_def
  sketchHeight_at_def sampleSize_at_def itemSize_at_def SKETCH_BUCKET_def SKETCH_SAMPLE_def
  SKETCH_BUCKETS_def SKETCH_SAMPLES_def SKETCH_BUCKET_INDEX_at_def SKETCH_SIZE_at_def MAXALIGN_def
  ex_memory_at ex_bytes_A_def ex_bytes_B_def

lemma ex_cell0: "merge_buckets_at 3 32 1032 64 1064 ex_memory = ex_memory"
  by (simp add: merge_buckets_at_def mem_eval)

lemma ex_items:
  "sorted_items_at ex_memory 48 76 = [item_with_hash 120571769]"
  "sorted_items_at ex_memory 1048 1076 = [item_with_hash 380222602]"
  by (simp_all add: sorted_items_at_def mem_eval upt_rec pg_qsort_def)

lemma ex_loop:
  "merge_loop_at 3 [item_with_hash 120571769] [item_with_hash 380222602] 48 1048 76 0 0 0 ex_memory
   = (2, store32 56 3493897784 (store32 80 120571769
           (store32 56 3379143444 (store32 76 380222602 ex_memory))))"
  apply (subst merge_loop_at.simps)
  apply (simp add: load_eval ex_memory_at ex_bytes_A_def ex_bytes_B_def item_with_hash_def
      cmp_item_hash_def hash_values)
  apply (subst merge_loop_at.simps)
  apply (simp add: load_eval store16_def store32_def ex_memory_at ex_bytes_A_def ex_bytes_B_def
      item_with_hash_def hash_values)
  apply (subst merge_loop_at.simps)
  apply (simp add: load_eval store16_def store32_def ex_memory_at ex_bytes_A_def ex_bytes_B_def)
  done

lemma ex_cell1: "merge_buckets_at 3 48 1048 76 1076 ex_memory = ex_memory1"
  by (simp add: merge_buckets_at_def ex_items ex_loop ex_memory1_def)
    (simp add: load_eval store16_def store32_def ex_memory_at ex_bytes_A_def ex_bytes_B_def)

lemma ex_hdr1:
  "numSketches_at ex_memory1 1000 = 1" "sketchWidth_at ex_memory1 1000 = 2"
  "sketchHeight_at ex_memory1 1000 = 1"
  by (simp_all add: ex_memory1_def numSketches_at_def sketchWidth_at_def sketchHeight_at_def
      load_eval store16_def store32_def ex_memory_at ex_bytes_B_def)

lemma ex_loop_j: "combine_loop_j 0 1000 0 0 0 ex_memory = ex_memory1"
  apply (subst combine_loop_j.simps)
  apply (simp add: ex_hdr SKETCH_BUCKET_def SKETCH_SAMPLE_def SKETCH_BUCKETS_def SKETCH_SAMPLES_def
      SKETCH_BUCKET_INDEX_at_def SKETCH_SIZE_at_def MAXALIGN_def ex_cell0)
  apply (subst combine_loop_j.simps)
  apply (simp add: ex_hdr SKETCH_BUCKET_def SKETCH_SAMPLE_def SKETCH_BUCKETS_def SKETCH_SAMPLES_def
      SKETCH_BUCKET_INDEX_at_def SKETCH_SIZE_at_def MAXALIGN_def ex_cell1)
  apply (subst combine_loop_j.simps)
  apply (simp add: ex_hdr1)
  done

lemma ex_loop_a: "combine_loop_a 0 1000 0 ex_memory = ex_memory1"
  apply (subst combine_loop_a.simps)
  apply (simp add: ex_hdr)
  apply (subst combine_loop_i.simps)
  apply (simp add: ex_hdr ex_loop_j)
  apply (subst combine_loop_i.simps)
  apply (simp add: ex_hdr1)
  apply (subst combine_loop_a.simps)
  apply (simp add: ex_hdr1)
  done

lemma ex_run:
  "omnisketch_combine_at True (Some 0) (Some 1000) 2000 88 ex_memory = Inr (Some 0, ex_memory')"
  by (simp add: omnisketch_combine_at_def omnisketch_equals_at_def ex_hdr ex_loop_a Let_def ex_memory'_def)
    (simp add: ex_memory1_def load_eval store16_def store32_def ex_memory_at ex_bytes_A_def ex_bytes_B_def)

lemma ex_AB_at: "sketch_at ex_memory' 0 = ex_AB"
  by (simp add: sketch_at_def bucket_at_def sketch_cells_def SKETCH_BUCKETS_def SKETCH_SAMPLES_def
      SKETCH_SIZE_at_def MAXALIGN_def numSketches_at_def sketchWidth_at_def sketchHeight_at_def
      sampleSize_at_def itemSize_at_def ex_memory'_def load_eval store16_def store32_def
      ex_memory_at ex_bytes_A_def upt_rec ex_AB_def)

lemma ex_bytes_B_at: "sketch_bytes ex_memory 1000 = {x. 1000 \<le> x \<and> x < 1088}"
  by (simp add: sketch_bytes_def sketch_length_def sketch_cells_def ex_hdr MAXALIGN_def)

lemma ex_bytes_A_at: "sketch_bytes ex_memory 0 = {x. 0 \<le> x \<and> x < 88}"
  by (simp add: sketch_bytes_def sketch_length_def sketch_cells_def ex_hdr MAXALIGN_def)

theorem combine_writes_first_sketch_only_witness:
  "sketch_at ex_memory 0 = ex_A1 \<and> sketch_at ex_memory 1000 = ex_B1
   \<and> omnisketch_equals_at ex_memory 1000 0
   \<and> sketch_bytes ex_memory 0 \<inter> sketch_bytes ex_memory 1000 = {}
   \<and> omnisketch_combine_at True (Some 0) (Some 1000) 2000 88 ex_memory = Inr (Some 0, ex_memory')
   \<and> sketch_at ex_memory' 0 = ex_AB
   \<and> map ex_memory' [1000..1087] = map ex_memory [1000..1087]"
proof -
  have eq: "omnisketch_equals_at ex_memory 1000 0"
    by (simp add: omnisketch_equals_at_def ex_hdr)
  have dis: "sketch_bytes ex_memory 0 \<inter> sketch_bytes ex_memory 1000 = {}"
    by (auto simp add: ex_bytes_A_at ex_bytes_B_at)
  from combine_writes_first_sketch_only [OF eq, of 2000 88] dis
  have "\<forall>x \<in> sketch_bytes ex_memory 1000. ex_memory' x = ex_memory x"
    by (simp add: ex_run)
  then have fr: "ex_memory' x = ex_memory x" if "1000 \<le> x \<and> x \<le> 1087" for x
    using that by (simp add: ex_bytes_B_at)
  have "map ex_memory' [1000..1087] = map ex_memory [1000..1087]"
  proof (rule map_cong [OF refl])
    fix x :: int
    assume "x \<in> set [1000..1087]"
    then have "1000 \<le> x \<and> x \<le> 1087" unfolding set_upto atLeastAtMost_iff .
    then show "ex_memory' x = ex_memory x" by (rule fr)
  qed
  then show ?thesis
    using eq dis by (simp add: ex_A_at ex_B_at ex_run ex_AB_at)
qed

section \<open>Three example sketches combined in three orders\<close>

lemma ex_P_eval: "omnisketch_add None 1 1 bits3 9 [Hashed 2] = Inr ex_P"
  by (simp add: add_eval pick_sizes_bits3 omnisketch_allocate_def empty_bucket_def ex_P_def)

lemma ex_Q_eval: "omnisketch_add None 1 1 bits3 11 [Hashed 2] = Inr ex_Q"
  by (simp add: add_eval pick_sizes_bits3 omnisketch_allocate_def empty_bucket_def ex_Q_def)

lemma ex_AP_eval: "omnisketch_combine True (Some ex_A1) (Some ex_P) = Inr (Some ex_AP)"
  by (simp add: combine_eval ex_A1_def ex_P_def ex_AP_def)

lemma ex_AP_Q_eval: "omnisketch_combine True (Some ex_AP) (Some ex_Q) = Inr (Some ex_AP_Q)"
  by (simp add: combine_eval ex_AP_def ex_Q_def ex_AP_Q_def)

lemma ex_PQ_eval: "omnisketch_combine True (Some ex_P) (Some ex_Q) = Inr (Some ex_PQ)"
  by (simp add: combine_eval ex_P_def ex_Q_def ex_PQ_def)

lemma ex_A_PQ_eval: "omnisketch_combine True (Some ex_A1) (Some ex_PQ) = Inr (Some ex_A_PQ)"
  by (simp add: combine_eval ex_A1_def ex_PQ_def ex_A_PQ_def)

lemma ex_QA_eval: "omnisketch_combine True (Some ex_Q) (Some ex_A1) = Inr (Some ex_QA)"
  by (simp add: combine_eval ex_Q_def ex_A1_def ex_QA_def)

lemma ex_QA_P_eval: "omnisketch_combine True (Some ex_QA) (Some ex_P) = Inr (Some ex_QA_P)"
  by (simp add: combine_eval ex_QA_def ex_P_def ex_QA_P_def)

lemma ex_finalized:
  "omnisketch_finalize ex_AP_Q = ex_AP_Q_f"
  "omnisketch_finalize ex_A_PQ = ex_A_PQ_f"
  "omnisketch_finalize ex_QA_P = ex_QA_P_f"
  by (simp_all add: finalize_eval ex_AP_Q_def ex_A_PQ_def ex_QA_P_def
      ex_AP_Q_f_def ex_A_PQ_f_def ex_QA_P_f_def)

lemma ex_ids:
  "sketch_ids ex_A1 = {120571769}" "sketch_ids ex_P = {380222602}" "sketch_ids ex_Q = {1196587888}"
  by (simp_all add: sketch_ids_def num_buckets_def SKETCH_SIZE_def cell_def stored_def upt_rec
      ex_A1_def ex_P_def ex_Q_def)


lemma ex_sketch_ok: "sketch_ok ex_A1" "sketch_ok ex_P" "sketch_ok ex_Q"
  by (simp_all add: sketch_ok_def shaped_def num_buckets_def SKETCH_SIZE_def upt_rec cell_ok_def
      sorted_form_def cell_def stored_def hash_values replicate_eval ex_A1_def ex_P_def ex_Q_def)

text \<open>
  C3 as stated fails. \<open>ex_A1\<close>, \<open>ex_P\<close> and \<open>ex_Q\<close> are the results of a first add with
  the seeds 6, 9 and 11; they are structurally equal and store three different IDs.
  Combined as (A, P), Q the result keeps the seed 6 of A, and its bucket 1, which only A
  has filled, was never merged and stays unmarked. Combined as (Q, A), P the result has
  the seed 11 of Q, and the merge of A's bucket into Q's empty one has marked it sorted.
  Finalize changes neither sketch, so the two results differ after finalize.
\<close>

theorem combine_order_changes_seed:
  "omnisketch_add None 1 1 bits3 6 [Hashed 0] = Inr ex_A1
   \<and> omnisketch_add None 1 1 bits3 9 [Hashed 2] = Inr ex_P
   \<and> omnisketch_add None 1 1 bits3 11 [Hashed 2] = Inr ex_Q
   \<and> omnisketch_equals ex_A1 ex_P \<and> omnisketch_equals ex_P ex_Q
   \<and> sketch_ids ex_A1 \<inter> sketch_ids ex_P = {}
   \<and> sketch_ids ex_A1 \<inter> sketch_ids ex_Q = {}
   \<and> sketch_ids ex_P \<inter> sketch_ids ex_Q = {}
   \<and> omnisketch_combine True (Some ex_A1) (Some ex_P) = Inr (Some ex_AP)
   \<and> omnisketch_combine True (Some ex_AP) (Some ex_Q) = Inr (Some ex_AP_Q)
   \<and> omnisketch_combine True (Some ex_Q) (Some ex_A1) = Inr (Some ex_QA)
   \<and> omnisketch_combine True (Some ex_QA) (Some ex_P) = Inr (Some ex_QA_P)
   \<and> omnisketch_finalize ex_AP_Q \<noteq> omnisketch_finalize ex_QA_P
   \<and> seed (omnisketch_finalize ex_AP_Q) = 6
   \<and> seed (omnisketch_finalize ex_QA_P) = 11
   \<and> \<not> isSorted (buckets (omnisketch_finalize ex_AP_Q) ! 1)
   \<and> isSorted (buckets (omnisketch_finalize ex_QA_P) ! 1)"
proof -
  have "omnisketch_equals ex_A1 ex_P" "omnisketch_equals ex_P ex_Q"
    by (simp_all add: omnisketch_equals_def ex_A1_def ex_P_def ex_Q_def)
  moreover have "seed ex_AP_Q_f = 6" "seed ex_QA_P_f = 11"
    "\<not> isSorted (buckets ex_AP_Q_f ! 1)" "isSorted (buckets ex_QA_P_f ! 1)"
    by (simp_all add: ex_AP_Q_f_def ex_QA_P_f_def)
  moreover from this have "ex_AP_Q_f \<noteq> ex_QA_P_f" by auto
  ultimately show ?thesis
    using ex_A1_eval ex_P_eval ex_Q_eval ex_AP_eval ex_AP_Q_eval ex_QA_eval ex_QA_P_eval
    by (simp add: ex_finalized ex_ids)
qed

theorem combine_order_up_to_seed_witness:
  "sketch_ok ex_A1 \<and> sketch_ok ex_P \<and> sketch_ok ex_Q
   \<and> agree_but_seed (omnisketch_finalize ex_AP_Q) (omnisketch_finalize ex_A_PQ)
   \<and> agree_but_seed (omnisketch_finalize ex_AP_Q) (omnisketch_finalize ex_QA_P)
   \<and> seed (omnisketch_finalize ex_AP_Q) = seed ex_A1
   \<and> seed (omnisketch_finalize ex_QA_P) = seed ex_Q"
proof -
  have eq: "omnisketch_equals ex_A1 ex_P" "omnisketch_equals ex_P ex_Q"
    by (simp_all add: omnisketch_equals_def ex_A1_def ex_P_def ex_Q_def)
  have dis: "sketch_ids ex_A1 \<inter> sketch_ids ex_P = {}" "sketch_ids ex_A1 \<inter> sketch_ids ex_Q = {}"
    "sketch_ids ex_P \<inter> sketch_ids ex_Q = {}"
    by (simp_all add: ex_ids)
  from combine_order_up_to_seed [OF ex_sketch_ok eq dis]
  show ?thesis
    by (simp add: ex_AP_eval ex_AP_Q_eval ex_PQ_eval ex_A_PQ_eval ex_QA_eval ex_QA_P_eval ex_sketch_ok)
qed

end
